theory Spec2Isabelle
  imports Main "HOL-Library.Char_ord" "HOL-Library.List_Lexorder"
begin

section \<open>Feature rows and the store\<close>

text \<open>
  A row of the \<open>features\<close> table of \<open>schema.sql\<close>, as \<open>deserialize\<close> of
  \<open>lib/features.js\<close> hands it out: the JSON columns are lists of strings, \<open>passes\<close> is a
  boolean. The two timestamp columns are left out; every statement below is therefore
  modulo \<open>created_at\<close> and \<open>updated_at\<close>. The column \<open>id\<close> is the field \<open>fid\<close> and the
  column \<open>notes\<close> the field \<open>notes_col\<close>, since \<open>id\<close> and \<open>notes\<close> are taken in Isabelle.
\<close>

record feature =
  fid :: string
  category :: string
  description :: string
  status :: string
  depends_on :: "string list"
  openspec_reference :: string
  requirements :: "string list"
  architecture_compliance :: "string list"
  verification_steps :: "string list"
  assigned_to :: string
  reviewed_by :: string
  tested_by :: string
  passes :: bool
  openspec_change_id :: string
  openspec_task_group :: int
  notes_col :: string

text \<open>The table, in row order (an INSERT appends).\<close>

type_synonym store = "feature list"

datatype error =
    CircularDependency string
  | ConstraintViolation string

text \<open>\<open>list\<close> without filters: \<open>SELECT * FROM features ORDER BY id\<close>.\<close>

definition list_features :: "store \<Rightarrow> feature list" where
  "list_features s = sort_key fid s"

text \<open>\<open>getFeature\<close>: \<open>SELECT * FROM features WHERE id = ?\<close>.\<close>

definition getFeature :: "store \<Rightarrow> string \<Rightarrow> feature option" where
  "getFeature s i = find (\<lambda>f. fid f = i) s"

section \<open>Dependency resolution\<close>

text \<open>
  The three accumulators of \<open>resolveOrder\<close>: the sets \<open>visited\<close> and \<open>visiting\<close> and the
  array \<open>sorted\<close>.
\<close>

record vstate =
  visited :: "string set"
  visiting :: "string set"
  sorted :: "feature list"

text \<open>
  The inner function \<open>visit\<close> and its \<open>for (const dep of f.depends_on) visit(dep)\<close> loop.
  The recursion of the source is not structural, so it is given fuel; \<open>None\<close> means the fuel
  ran out, \<open>Some (Inl e)\<close> that \<open>e\<close> was thrown.
\<close>

fun visit :: "nat \<Rightarrow> (string \<rightharpoonup> feature) \<Rightarrow> string \<Rightarrow> vstate \<Rightarrow> (error + vstate) option"
  and visit_each :: "nat \<Rightarrow> (string \<rightharpoonup> feature) \<Rightarrow> string list \<Rightarrow> vstate \<Rightarrow> (error + vstate) option"
where
  "visit 0 m i st = None"
| "visit (Suc n) m i st =
    (if i \<in> visited st then Some (Inr st)
     else if i \<in> visiting st then Some (Inl (CircularDependency i))
     else
       (case visit_each n m (case m i of None \<Rightarrow> [] | Some f \<Rightarrow> depends_on f)
               (st\<lparr>visiting := insert i (visiting st)\<rparr>) of
          None \<Rightarrow> None
        | Some (Inl e) \<Rightarrow> Some (Inl e)
        | Some (Inr st') \<Rightarrow>
            Some (Inr (st'\<lparr>visiting := visiting st' - {i},
                           visited := insert i (visited st'),
                           sorted := (case m i of None \<Rightarrow> sorted st'
                                      | Some f \<Rightarrow> sorted st' @ [f])\<rparr>))))"
| "visit_each n m [] st = Some (Inr st)"
| "visit_each n m (d # ds) st =
    (case visit n m d st of
       None \<Rightarrow> None
     | Some (Inl e) \<Rightarrow> Some (Inl e)
     | Some (Inr st') \<Rightarrow> visit_each n m ds st')"

text \<open>Every id that can ever be passed to \<open>visit\<close>: the stored ids and the ids they name.\<close>

definition universe :: "feature list \<Rightarrow> string list" where
  "universe fs = map fid fs @ concat (map depends_on fs)"

text \<open>
  \<open>resolveOrder\<close>. The \<open>Map\<close> is built from the listed rows; ids are the primary key, so
  no two rows share one. The fuel is one more than the number of ids in sight.
\<close>

definition resolveOrder :: "store \<Rightarrow> (error + feature list) option" where
  "resolveOrder s =
    (let all = list_features s;
         m = map_of (map (\<lambda>f. (fid f, f)) all)
     in map_option (map_sum id sorted)
          (visit_each (Suc (length (universe all))) m (map fid all)
             \<lparr>visited = {}, visiting = {}, sorted = []\<rparr>))"

text \<open>\<open>depsAreMet\<close>.\<close>

definition depsAreMet :: "store \<Rightarrow> string \<Rightarrow> bool" where
  "depsAreMet s i =
    (case getFeature s i of
       None \<Rightarrow> True
     | Some f \<Rightarrow>
         if depends_on f = [] then True
         else list_all (\<lambda>d. case getFeature s d of None \<Rightarrow> False | Some dep \<Rightarrow> passes dep)
                (depends_on f))"

section \<open>The scheduler\<close>

datatype action = Dev | Review | Qa | Pr | Merge

text \<open>The body of the \<open>for (const feature of ordered)\<close> loop of \<open>getNextAction\<close>.\<close>

fun pick :: "store \<Rightarrow> string set \<Rightarrow> feature list \<Rightarrow> (action \<times> feature) option" where
  "pick s escalated [] = None"
| "pick s escalated (f # fs) =
    (if status f = ''complete'' then pick s escalated fs
     else if fid f \<in> escalated then pick s escalated fs
     else if \<not> depsAreMet s (fid f) then pick s escalated fs
     else if passes f then Some (Pr, f)
     else if status f = ''pending'' \<or> status f = ''needs-revision'' then Some (Dev, f)
     else if status f = ''ready-for-review'' then Some (Review, f)
     else if status f = ''approved'' \<or> status f = ''qa-testing'' then Some (Qa, f)
     else if status f = ''pr-open'' then Some (Merge, f)
     else Some (Dev, f))"

definition getNextAction ::
  "store \<Rightarrow> string set \<Rightarrow> (error + (action \<times> feature) option) option" where
  "getNextAction s escalated = map_option (map_sum id (pick s escalated)) (resolveOrder s)"

section \<open>Id allocation\<close>

text \<open>\<open>String.prototype.replace\<close> with a string pattern: the first occurrence only.\<close>

fun replace_first :: "string \<Rightarrow> string \<Rightarrow> string \<Rightarrow> string" where
  "replace_first pat rep [] = (if pat = [] then rep else [])"
| "replace_first pat rep (c # cs) =
    (if take (length pat) (c # cs) = pat then rep @ drop (length pat) (c # cs)
     else c # replace_first pat rep cs)"

definition digit_val :: "char \<Rightarrow> nat option" where
  "digit_val c = map_of [(CHR ''0'', 0), (CHR ''1'', 1), (CHR ''2'', 2), (CHR ''3'', 3),
     (CHR ''4'', 4), (CHR ''5'', 5), (CHR ''6'', 6), (CHR ''7'', 7), (CHR ''8'', 8),
     (CHR ''9'', 9)] c"

definition is_space :: "char \<Rightarrow> bool" where
  "is_space c = (c \<in> set [CHR '' '', CHR 0x09, CHR 0x0A, CHR 0x0B, CHR 0x0C, CHR 0x0D])"

text \<open>The value of a run of decimal digits, read left to right.\<close>

definition digits_val :: "string \<Rightarrow> nat" where
  "digits_val ds = foldl (\<lambda>acc c. 10 * acc + (case digit_val c of None \<Rightarrow> 0 | Some d \<Rightarrow> d)) 0 ds"

text \<open>
  \<open>parseInt(s, 10)\<close>: leading white space, an optional sign, then the longest run of
  digits; \<open>None\<close> is \<open>NaN\<close>. Numbers are unbounded integers here; the source's doubles
  agree with them below \<open>2 ^ 53\<close>.
\<close>

definition parseInt :: "string \<Rightarrow> int option" where
  "parseInt s =
    (let t = dropWhile is_space s;
         neg = (t \<noteq> [] \<and> hd t = CHR ''-'');
         u = (if t \<noteq> [] \<and> (hd t = CHR ''-'' \<or> hd t = CHR ''+'') then tl t else t);
         ds = takeWhile (\<lambda>c. digit_val c \<noteq> None) u
     in if ds = [] then None
        else Some (if neg then - int (digits_val ds) else int (digits_val ds)))"

fun nat_string :: "nat \<Rightarrow> string" where
  "nat_string n =
    (if n < 10 then [''0123456789'' ! n]
     else nat_string (n div 10) @ [''0123456789'' ! (n mod 10)])"

text \<open>\<open>String(x)\<close> of a number.\<close>

definition number_string :: "int option \<Rightarrow> string" where
  "number_string x =
    (case x of None \<Rightarrow> ''NaN''
     | Some v \<Rightarrow> if v < 0 then CHR ''-'' # nat_string (nat (- v)) else nat_string (nat v))"

definition padStart :: "nat \<Rightarrow> char \<Rightarrow> string \<Rightarrow> string" where
  "padStart w c s = replicate (w - length s) c @ s"

text \<open>
  \<open>nextId\<close>: \<open>SELECT id FROM features ORDER BY id DESC LIMIT 1\<close> compares the ids as text.
\<close>

definition nextId :: "store \<Rightarrow> string" where
  "nextId s =
    (case rev (sort (map fid s)) of
       [] \<Rightarrow> ''FEAT-001''
     | last_id # _ \<Rightarrow>
         ''FEAT-'' @ padStart 3 CHR ''0''
           (number_string (map_option (\<lambda>num. num + 1) (parseInt (replace_first ''FEAT-'' [] last_id)))))"

section \<open>Writing rows\<close>

text \<open>The \<open>CHECK\<close> constraint on the \<open>status\<close> column.\<close>

definition valid_statuses :: "string list" where
  "valid_statuses = [''pending'', ''in-dev'', ''ready-for-review'', ''approved'',
     ''needs-revision'', ''qa-testing'', ''pr-open'', ''complete'']"

text \<open>
  The partial unique index \<open>idx_openspec_upsert\<close>: no other row has the key of \<open>r\<close>,
  unless the change id of \<open>r\<close> is empty.
\<close>

definition key_clash :: "store \<Rightarrow> feature \<Rightarrow> bool" where
  "key_clash s r =
    (openspec_change_id r \<noteq> [] \<and>
     list_ex (\<lambda>g. fid g \<noteq> fid r \<and> openspec_change_id g = openspec_change_id r \<and>
                  openspec_task_group g = openspec_task_group r) s)"

text \<open>
  \<open>serialize\<close> followed by \<open>deserialize\<close>: the \<open>||\<close> defaults that change an empty
  (or missing) field.
\<close>

definition serialize :: "feature \<Rightarrow> feature" where
  "serialize f =
    f\<lparr>status := (if status f = [] then ''pending'' else status f),
      assigned_to := (if assigned_to f = [] then ''dev-agent'' else assigned_to f),
      reviewed_by := (if reviewed_by f = [] then ''code-reviewer'' else reviewed_by f),
      tested_by := (if tested_by f = [] then ''qa-agent'' else tested_by f)\<rparr>"

text \<open>
  \<open>create\<close>: the INSERT fails on a taken primary key, a status outside the \<open>CHECK\<close> list
  or a taken upsert key; otherwise the row is appended. (The row read back is not used by
  any caller modelled here.)
\<close>

definition create :: "store \<Rightarrow> feature \<Rightarrow> error + store" where
  "create s f =
    (let r = serialize f in
     if list_ex (\<lambda>g. fid g = fid r) s
       then Inl (ConstraintViolation ''UNIQUE constraint failed: features.id'')
     else if status r \<notin> set valid_statuses
       then Inl (ConstraintViolation ''CHECK constraint failed: status'')
     else if key_clash s r
       then Inl (ConstraintViolation
                   ''UNIQUE constraint failed: features.openspec_change_id, features.openspec_task_group'')
     else Inr (s @ [r]))"

text \<open>
  One entry of the \<open>fields\<close> object of \<open>update\<close>: a column with a value of the column's
  type (the fifteen columns of the allow-list, and the primary key \<open>id\<close>, which the
  allow-list leaves out), or any other key (\<open>created_at\<close>, a misspelt name, ...), whose
  value is never looked at.
\<close>

datatype field =
    Category string
  | Description string
  | Status string
  | Depends_on "string list"
  | Openspec_reference string
  | Requirements "string list"
  | Architecture_compliance "string list"
  | Verification_steps "string list"
  | Assigned_to string
  | Reviewed_by string
  | Tested_by string
  | Passes bool
  | Notes string
  | Openspec_change_id string
  | Openspec_task_group int
  | Id string
  | Other string

fun key :: "field \<Rightarrow> string" where
  "key (Category v) = ''category''"
| "key (Description v) = ''description''"
| "key (Status v) = ''status''"
| "key (Depends_on v) = ''depends_on''"
| "key (Openspec_reference v) = ''openspec_reference''"
| "key (Requirements v) = ''requirements''"
| "key (Architecture_compliance v) = ''architecture_compliance''"
| "key (Verification_steps v) = ''verification_steps''"
| "key (Assigned_to v) = ''assigned_to''"
| "key (Reviewed_by v) = ''reviewed_by''"
| "key (Tested_by v) = ''tested_by''"
| "key (Passes v) = ''passes''"
| "key (Notes v) = ''notes''"
| "key (Openspec_change_id v) = ''openspec_change_id''"
| "key (Openspec_task_group v) = ''openspec_task_group''"
| "key (Id v) = ''id''"
| "key (Other k) = k"

definition allowed :: "string list" where
  "allowed = [''category'', ''description'', ''status'', ''depends_on'', ''openspec_reference'',
     ''requirements'', ''architecture_compliance'', ''verification_steps'', ''assigned_to'',
     ''reviewed_by'', ''tested_by'', ''passes'', ''notes'', ''openspec_change_id'',
     ''openspec_task_group'']"

text \<open>The effect of one \<open>SET key = @key\<close> on a row.\<close>

fun assign :: "feature \<Rightarrow> field \<Rightarrow> feature" where
  "assign r (Category v) = r\<lparr>category := v\<rparr>"
| "assign r (Description v) = r\<lparr>description := v\<rparr>"
| "assign r (Status v) = r\<lparr>status := v\<rparr>"
| "assign r (Depends_on v) = r\<lparr>depends_on := v\<rparr>"
| "assign r (Openspec_reference v) = r\<lparr>openspec_reference := v\<rparr>"
| "assign r (Requirements v) = r\<lparr>requirements := v\<rparr>"
| "assign r (Architecture_compliance v) = r\<lparr>architecture_compliance := v\<rparr>"
| "assign r (Verification_steps v) = r\<lparr>verification_steps := v\<rparr>"
| "assign r (Assigned_to v) = r\<lparr>assigned_to := v\<rparr>"
| "assign r (Reviewed_by v) = r\<lparr>reviewed_by := v\<rparr>"
| "assign r (Tested_by v) = r\<lparr>tested_by := v\<rparr>"
| "assign r (Passes v) = r\<lparr>passes := v\<rparr>"
| "assign r (Notes v) = r\<lparr>notes_col := v\<rparr>"
| "assign r (Openspec_change_id v) = r\<lparr>openspec_change_id := v\<rparr>"
| "assign r (Openspec_task_group v) = r\<lparr>openspec_task_group := v\<rparr>"
| "assign r (Id v) = r\<lparr>fid := v\<rparr>"
| "assign r (Other k) = r"

text \<open>
  \<open>UPDATE features SET ... WHERE id = @id\<close>: no row, no change and no constraint to
  fail; otherwise the new row must pass the \<open>CHECK\<close> and the unique index.
\<close>

definition run_update :: "store \<Rightarrow> string \<Rightarrow> field list \<Rightarrow> error + store" where
  "run_update s i sets =
    (case getFeature s i of
       None \<Rightarrow> Inr s
     | Some old \<Rightarrow>
         (let new = foldl assign old sets in
          if status new \<notin> set valid_statuses
            then Inl (ConstraintViolation ''CHECK constraint failed: status'')
          else if key_clash s new
            then Inl (ConstraintViolation
                        ''UNIQUE constraint failed: features.openspec_change_id, features.openspec_task_group'')
          else Inr (map (\<lambda>r. if fid r = i then new else r) s)))"

text \<open>
  \<open>update\<close>: the entries whose key is not in the allow-list are skipped; the result is the
  new store and the row read back (\<open>None\<close> is \<open>null\<close>).
\<close>

definition update :: "store \<Rightarrow> string \<Rightarrow> field list \<Rightarrow> error + store \<times> feature option" where
  "update s i flds =
    (let sets = filter (\<lambda>fl. key fl \<in> set allowed) flds in
     if sets = [] then Inr (s, getFeature s i)
     else (case run_update s i sets of
             Inl e \<Rightarrow> Inl e
           | Inr s' \<Rightarrow> Inr (s', getFeature s' i)))"

section \<open>The autoplay controller\<close>

text \<open>The part of \<open>loadConfig\<close> that the loop reads.\<close>

record config =
  maxRetries :: int
  autoMerge :: bool
  safeMode :: bool

text \<open>
  What lies outside the program: the agent sessions, which may rewrite the store in any way
  (or fail to start, when the prompt file is missing), and whether a merge goes through.
  Both may depend on the number of the iteration.
\<close>

record env =
  agent :: "nat \<Rightarrow> action \<Rightarrow> feature \<Rightarrow> store \<Rightarrow> error + store"
  merged :: "nat \<Rightarrow> feature \<Rightarrow> bool"

record lstate =
  db :: store
  retries :: "string \<Rightarrow> int"
  escalated :: "string set"

text \<open>
  \<open>createPR\<close>: whether or not the \<open>gh\<close> call succeeds, the feature is set to \<open>pr-open\<close>.
\<close>

definition createPR :: "store \<Rightarrow> feature \<Rightarrow> error + store" where
  "createPR s f = map_sum id fst (update s (fid f) [Status ''pr-open''])"

text \<open>
  \<open>mergePR\<close>: without \<open>autoMerge\<close> nothing is done; otherwise a successful merge (through
  \<open>gh\<close> or locally) sets the feature to \<open>complete\<close>. The boolean is the return value.
\<close>

definition mergePR :: "env \<Rightarrow> nat \<Rightarrow> config \<Rightarrow> store \<Rightarrow> feature \<Rightarrow> error + store \<times> bool" where
  "mergePR e k c s f =
    (if \<not> autoMerge c then Inr (s, False)
     else if merged e k f
       then map_sum id (\<lambda>p. (fst p, True)) (update s (fid f) [Status ''complete''])
     else Inr (s, False))"

text \<open>
  The \<open>while (true)\<close> loop of \<open>runOrchestratorMode\<close>, with fuel: \<open>None\<close> means that the
  loop is still running when the fuel is used up, \<open>Some (Inl e)\<close> that it was left by an
  exception, \<open>Some (Inr st)\<close> that it reached its \<open>break\<close>. \<open>k\<close> counts the iterations.
\<close>

fun runLoop :: "nat \<Rightarrow> env \<Rightarrow> config \<Rightarrow> nat \<Rightarrow> lstate \<Rightarrow> (error + lstate) option" where
  "runLoop 0 e c k st = None"
| "runLoop (Suc n) e c k st =
    (case getNextAction (db st) (escalated st) of
       None \<Rightarrow> None
     | Some (Inl err) \<Rightarrow> Some (Inl err)
     | Some (Inr None) \<Rightarrow> Some (Inr st)
     | Some (Inr (Some (a, f))) \<Rightarrow>
         if a = Pr then
           (case createPR (db st) f of
              Inl err \<Rightarrow> Some (Inl err)
            | Inr s' \<Rightarrow> runLoop n e c (Suc k) (st\<lparr>db := s'\<rparr>))
         else if a = Merge then
           (case mergePR e k c (db st) f of
              Inl err \<Rightarrow> Some (Inl err)
            | Inr (s', ok) \<Rightarrow>
                runLoop n e c (Suc k)
                  (st\<lparr>db := s',
                      escalated := (if \<not> ok \<and> safeMode c then insert (fid f) (escalated st)
                                    else escalated st)\<rparr>))
         else
           (let rejected = (a = Dev \<and> status f = ''needs-revision'');
                r1 = (if rejected then (retries st)(fid f := retries st (fid f) + 1)
                      else retries st)
            in if rejected \<and> r1 (fid f) > maxRetries c then
                 runLoop n e c (Suc k)
                   (st\<lparr>retries := r1, escalated := insert (fid f) (escalated st)\<rparr>)
               else
                 (case agent e k a f (db st) of
                    Inl err \<Rightarrow> Some (Inl err)
                  | Inr s' \<Rightarrow>
                      (case getFeature s' (fid f) of
                         None \<Rightarrow> runLoop n e c (Suc k) (st\<lparr>db := s', retries := r1\<rparr>)
                       | Some u \<Rightarrow>
                           if status u = status f then
                             (let r2 = r1(fid f := r1 (fid f) + 1)
                              in runLoop n e c (Suc k)
                                   (st\<lparr>db := s', retries := r2,
                                       escalated := (if r2 (fid f) > maxRetries c
                                                     then insert (fid f) (escalated st)
                                                     else escalated st)\<rparr>))
                           else runLoop n e c (Suc k) (st\<lparr>db := s', retries := r1\<rparr>)))))"

text \<open>\<open>runOrchestratorMode\<close>, from the first iteration on.\<close>

definition runOrchestratorMode :: "nat \<Rightarrow> env \<Rightarrow> config \<Rightarrow> store \<Rightarrow> (error + lstate) option" where
  "runOrchestratorMode n e c s = runLoop n e c 0 \<lparr>db = s, retries = (\<lambda>i. 0), escalated = {}\<rparr>"

section \<open>Rows with the column defaults\<close>

text \<open>
  A row with the column defaults of \<open>schema.sql\<close> and \<open>serialize\<close>: the importer starts
  from it, and the concrete stores below are made of such rows.
\<close>

definition row :: "string \<Rightarrow> string \<Rightarrow> string list \<Rightarrow> bool \<Rightarrow> feature" where
  "row i st deps p =
    \<lparr>fid = i, category = [], description = [], status = st, depends_on = deps,
     openspec_reference = [], requirements = [], architecture_compliance = [],
     verification_steps = [], assigned_to = ''dev-agent'', reviewed_by = ''code-reviewer'',
     tested_by = ''qa-agent'', passes = p, openspec_change_id = [], openspec_task_group = 0,
     notes_col = []\<rparr>"

section \<open>The spec importer\<close>

text \<open>One element of the result of \<open>parseTaskGroups\<close>.\<close>

record task_group =
  title :: string
  steps :: "string list"

text \<open>
  \<open>findByOpenspecKey\<close>: the row is looked up by its upsert key and then read again by id.
\<close>

definition findByOpenspecKey :: "store \<Rightarrow> string \<Rightarrow> int \<Rightarrow> feature option" where
  "findByOpenspecKey s changeId taskGroup =
    (case find (\<lambda>r. openspec_change_id r = changeId \<and> openspec_task_group r = taskGroup) s of
       None \<Rightarrow> None
     | Some r \<Rightarrow> getFeature s (fid r))"

text \<open>
  The object \<open>featureData\<close> built for task group number \<open>taskGroup\<close>, as the list of its
  entries; \<open>specRequirements\<close> and \<open>specScenarios\<close> are what the importer has extracted
  from the spec text.
\<close>

definition featureData ::
  "string \<Rightarrow> string list \<Rightarrow> string list \<Rightarrow> task_group \<Rightarrow> int \<Rightarrow> field list" where
  "featureData changeName specRequirements specScenarios grp taskGroup =
    [Category changeName,
     Description (title grp),
     Openspec_reference (''openspec/changes/'' @ changeName),
     Openspec_change_id changeName,
     Openspec_task_group taskGroup,
     Requirements (if specRequirements \<noteq> [] then specRequirements else steps grp),
     Verification_steps
       (if specScenarios \<noteq> [] then map (\<lambda>x. x @ '' verified'') specScenarios
        else map (\<lambda>x. x @ '' works correctly'') (steps grp)),
     Notes (''Imported from OpenSpec change: '' @ changeName)]"

text \<open>
  The first loop of \<open>importChange\<close>, from group index \<open>g\<close> on: update the feature found
  under the key, or create one under a fresh id with status \<open>pending\<close>, no dependencies,
  the default agents and \<open>passes = false\<close>. The two lists are \<open>created\<close> and \<open>updated\<close>.
\<close>

fun upsert ::
  "string \<Rightarrow> string list \<Rightarrow> string list \<Rightarrow> int \<Rightarrow> task_group list \<Rightarrow>
   store \<times> string list \<times> string list \<Rightarrow> error + store \<times> string list \<times> string list" where
  "upsert c rq sc g [] acc = Inr acc"
| "upsert c rq sc g (grp # rest) (s, created, updated) =
    (case findByOpenspecKey s c (g + 1) of
       Some existing \<Rightarrow>
         (case update s (fid existing) (featureData c rq sc grp (g + 1)) of
            Inl e \<Rightarrow> Inl e
          | Inr (s', read_back) \<Rightarrow>
              upsert c rq sc (g + 1) rest (s', created, updated @ [fid existing]))
     | None \<Rightarrow>
         (case create s (foldl assign (row (nextId s) ''pending'' [] False)
                           (featureData c rq sc grp (g + 1))) of
            Inl e \<Rightarrow> Inl e
          | Inr s' \<Rightarrow> upsert c rq sc (g + 1) rest (s', created @ [nextId s], updated)))"

text \<open>The array \<open>allIds\<close>: the ids found under the keys \<open>1, ..., n\<close>, in that order.\<close>

definition allIds :: "store \<Rightarrow> string \<Rightarrow> nat \<Rightarrow> string list" where
  "allIds s c n = List.map_filter (\<lambda>g. map_option fid (findByOpenspecKey s c (int g + 1))) [0..<n]"

text \<open>
  The last loop: each id of \<open>allIds\<close> but the first gets its predecessor appended to
  \<open>depends_on\<close>, unless it is there already.
\<close>

fun wire :: "store \<Rightarrow> string list \<Rightarrow> error + store" where
  "wire s (p # i # rest) =
    (case getFeature s i of
       None \<Rightarrow> wire s (i # rest)
     | Some feat \<Rightarrow>
         if p \<notin> set (depends_on feat) then
           (case update s i [Depends_on (depends_on feat @ [p])] of
              Inl e \<Rightarrow> Inl e
            | Inr (s', read_back) \<Rightarrow> wire s' (i # rest))
         else wire s (i # rest))"
| "wire s ids = Inr s"

record import_result =
  created :: "string list"
  updated :: "string list"
  total :: nat

text \<open>
  The task groups that are imported: \<open>parsed\<close> is the result of \<open>parseTaskGroups\<close>; a
  change without task groups becomes one group named after the change.
\<close>

definition taskGroups :: "string \<Rightarrow> task_group list \<Rightarrow> task_group list" where
  "taskGroups changeName parsed =
    (if parsed = [] then [\<lparr>title = changeName, steps = []\<rparr>] else parsed)"

text \<open>\<open>importChange\<close>, from the parsed artifacts on.\<close>

definition importChange ::
  "string \<Rightarrow> task_group list \<Rightarrow> string list \<Rightarrow> string list \<Rightarrow> store \<Rightarrow>
   error + store \<times> import_result" where
  "importChange changeName parsed specRequirements specScenarios s =
    (case upsert changeName specRequirements specScenarios 0 (taskGroups changeName parsed)
            (s, [], []) of
       Inl e \<Rightarrow> Inl e
     | Inr (s1, cr, up) \<Rightarrow>
         (case wire s1 (allIds s1 changeName (length (taskGroups changeName parsed))) of
            Inl e \<Rightarrow> Inl e
          | Inr s2 \<Rightarrow>
              Inr (s2, \<lparr>created = cr, updated = up,
                        total = length (taskGroups changeName parsed)\<rparr>)))"

text \<open>
  The constraints that the schema keeps on the table: the primary key, the \<open>CHECK\<close> on
  \<open>status\<close> and the partial unique index.
\<close>

definition wf_store :: "store \<Rightarrow> bool" where
  "wf_store s \<longleftrightarrow>
     distinct (map fid s) \<and>
     list_all (\<lambda>r. status r \<in> set valid_statuses \<and> \<not> key_clash s r) s"

section \<open>The dependency graph\<close>

text \<open>
  The ids that \<open>visit\<close> goes on to from \<open>i\<close>, the edges of the dependency graph, and the
  order that \<open>resolveOrder\<close> is to produce: every existing dependency of a feature stands
  before the feature.
\<close>

definition dep_ids :: "(string \<rightharpoonup> feature) \<Rightarrow> string \<Rightarrow> string list" where
  "dep_ids m i = (case m i of None \<Rightarrow> [] | Some f \<Rightarrow> depends_on f)"

definition edges :: "(string \<rightharpoonup> feature) \<Rightarrow> (string \<times> string) set" where
  "edges m = {(i, d). d \<in> set (dep_ids m i)}"

definition topological :: "(string \<rightharpoonup> feature) \<Rightarrow> feature list \<Rightarrow> bool" where
  "topological m fs \<longleftrightarrow>
     (\<forall>pre f post. fs = pre @ f # post \<longrightarrow>
        (\<forall>d\<in>set (depends_on f). m d \<noteq> None \<longrightarrow> d \<in> fid ` set pre))"

text \<open>The invariant of the three accumulators of \<open>resolveOrder\<close>.\<close>

definition dfs_inv :: "(string \<rightharpoonup> feature) \<Rightarrow> vstate \<Rightarrow> bool" where
  "dfs_inv m st \<longleftrightarrow>
     visited st \<inter> visiting st = {} \<and>
     distinct (map fid (sorted st)) \<and>
     fid ` set (sorted st) = {i \<in> visited st. m i \<noteq> None} \<and>
     (\<forall>f\<in>set (sorted st). m (fid f) = Some f) \<and>
     (\<forall>i\<in>visited st. set (dep_ids m i) \<subseteq> visited st) \<and>
     topological m (sorted st)"

section \<open>Invariants of the importer\<close>

text \<open>
  The relations used to follow the store through \<open>importChange\<close>. \<open>upserted\<close>: what the
  first loop, run from group index \<open>g\<close> over \<open>grps\<close>, has made of a store: every old row is
  kept or refreshed in place, every new row has a key of the change, and every group has
  its row with the content of \<open>featureData\<close>. \<open>wired\<close>: what the last loop has made of a
  store: no row added or removed, and a row changed only by one new entry at the end of
  \<open>depends_on\<close>.
\<close>

definition upserted ::
  "string \<Rightarrow> string list \<Rightarrow> string list \<Rightarrow> int \<Rightarrow> task_group list \<Rightarrow> store \<Rightarrow> store \<Rightarrow> bool" where
  "upserted c rq sc g grps s s1 \<longleftrightarrow>
     wf_store s1 \<and>
     (\<forall>r\<in>set s. \<exists>r'. getFeature s1 (fid r) = Some r' \<and>
        (r' = r \<or>
         (openspec_change_id r = c \<and>
          (\<exists>j<length grps. openspec_task_group r = g + 1 + int j \<and>
             r' = foldl assign r (featureData c rq sc (grps ! j) (g + 1 + int j)))))) \<and>
     (\<forall>r'\<in>set s1. fid r' \<in> fid ` set s \<or>
        (openspec_change_id r' = c \<and> g < openspec_task_group r' \<and>
         openspec_task_group r' \<le> g + int (length grps))) \<and>
     (\<forall>j<length grps. \<exists>r'\<in>set s1. openspec_change_id r' = c \<and>
        openspec_task_group r' = g + 1 + int j \<and>
        foldl assign r' (featureData c rq sc (grps ! j) (g + 1 + int j)) = r')"

definition wired :: "string list \<Rightarrow> store \<Rightarrow> store \<Rightarrow> bool" where
  "wired ids s s' \<longleftrightarrow>
     wf_store s' \<and> map fid s' = map fid s \<and>
     (\<forall>r\<in>set s. \<exists>r'. getFeature s' (fid r) = Some r' \<and>
        (r' = r \<or>
         (fid r \<in> set ids \<and>
          (\<exists>q. q \<notin> set (depends_on r) \<and> r' = r\<lparr>depends_on := depends_on r @ [q]\<rparr>))))"

text \<open>After \<open>wire\<close>, every id of the list that has a row depends on its predecessor.\<close>

definition chained :: "store \<Rightarrow> string list \<Rightarrow> bool" where
  "chained s ids \<longleftrightarrow>
     (\<forall>k. Suc k < length ids \<longrightarrow>
        (\<forall>r. getFeature s (ids ! Suc k) = Some r \<longrightarrow> ids ! k \<in> set (depends_on r)))"

text \<open>What holds after a successful import.\<close>

definition imported ::
  "string \<Rightarrow> string list \<Rightarrow> string list \<Rightarrow> task_group list \<Rightarrow> store \<Rightarrow> bool" where
  "imported c rq sc grps s \<longleftrightarrow>
     wf_store s \<and>
     (\<forall>j<length grps. \<exists>r\<in>set s. openspec_change_id r = c \<and>
        openspec_task_group r = 0 + 1 + int j \<and>
        foldl assign r (featureData c rq sc (grps ! j) (0 + 1 + int j)) = r) \<and>
     chained s (allIds s c (length grps))"

section \<open>Example data\<close>

text \<open>The two task groups of the example in the comment of \<open>parseTaskGroups\<close>.\<close>

definition auth_groups :: "task_group list" where
  "auth_groups =
    [\<lparr>title = ''Set up auth provider'',
      steps = [''Configure OAuth endpoints'', ''Add token refresh logic'']\<rparr>,
     \<lparr>title = ''Create login UI'',
      steps = [''Build login form component'', ''Add error handling'']\<rparr>]"

text \<open>The store that importing them as change \<open>auth\<close> into an empty store leaves.\<close>

definition auth_store :: store where
  "auth_store =
    [foldl assign (row ''FEAT-001'' ''pending'' [] False)
       (featureData ''auth'' [] [] (auth_groups ! 0) 1),
     foldl assign (row ''FEAT-002'' ''pending'' [''FEAT-001''] False)
       (featureData ''auth'' [] [] (auth_groups ! 1) 2)]"

section \<open>Properties of the scheduler\<close>

lemma pick_not_complete:
  "pick s esc fs = Some (a, f) \<Longrightarrow> status f \<noteq> ''complete''"
  by (induction fs) (auto split: if_splits)

lemma getNextAction_pick:
  assumes "getNextAction s esc = Some (Inr r)"
  obtains fs where "resolveOrder s = Some (Inr fs)" and "pick s esc fs = r"
proof (cases "resolveOrder s")
  case None
  with assms show ?thesis by (simp add: getNextAction_def)
next
  case (Some x)
  with assms that show ?thesis by (cases x) (auto simp: getNextAction_def)
qed

text \<open>
  C5. A feature whose status is \<open>complete\<close> is never the feature of a pair returned by
  \<open>getNextAction\<close>, whatever its \<open>passes\<close> value, the escalation set and the other rows.
\<close>

theorem complete_never_scheduled:
  assumes "getNextAction s esc = Some (Inr (Some (a, f)))"
  shows "status f \<noteq> ''complete''"
proof -
  from assms obtain fs where "pick s esc fs = Some (a, f)"
    by (rule getNextAction_pick)
  then show ?thesis by (rule pick_not_complete)
qed

theorem complete_never_scheduled_witness:
  "getNextAction [row ''FEAT-001'' ''complete'' [] True, row ''FEAT-002'' ''pending'' [] False] {}
     = Some (Inr (Some (Dev, row ''FEAT-002'' ''pending'' [] False)))
   \<and> status (row ''FEAT-002'' ''pending'' [] False) \<noteq> ''complete''"
proof -
  have h: "getNextAction [row ''FEAT-001'' ''complete'' [] True,
                          row ''FEAT-002'' ''pending'' [] False] {}
             = Some (Inr (Some (Dev, row ''FEAT-002'' ''pending'' [] False)))"
    by code_simp
  from h complete_never_scheduled [OF h] show ?thesis by simp
qed

lemma pick_skips:
  assumes "\<forall>g\<in>set pre. status g = ''complete'' \<or> fid g \<in> esc \<or> \<not> depsAreMet s (fid g)"
  shows "pick s esc (pre @ rest) = pick s esc rest"
  using assms by (induction pre) auto

text \<open>
  C4. Let \<open>f\<close> have \<open>passes = true\<close> and a status other than \<open>complete\<close>, be outside the
  escalation set and have its dependencies met, and let every feature before it in the
  order of \<open>resolveOrder\<close> be skipped (complete, escalated or blocked). Then
  \<open>getNextAction\<close> returns the action \<open>pr\<close> for \<open>f\<close>, whatever the status of \<open>f\<close> is.
\<close>

theorem passes_routes_to_pr:
  assumes "resolveOrder s = Some (Inr (pre @ f # post))"
    and "\<forall>g\<in>set pre. status g = ''complete'' \<or> fid g \<in> esc \<or> \<not> depsAreMet s (fid g)"
    and "passes f" and "status f \<noteq> ''complete''"
    and "fid f \<notin> esc" and "depsAreMet s (fid f)"
  shows "getNextAction s esc = Some (Inr (Some (Pr, f)))"
proof -
  have "pick s esc (pre @ f # post) = pick s esc (f # post)"
    using assms(2) by (rule pick_skips)
  also have "\<dots> = Some (Pr, f)"
    using assms(3-6) by simp
  finally show ?thesis
    using assms(1) by (simp add: getNextAction_def)
qed

theorem passes_routes_to_pr_witness:
  "getNextAction [row ''FEAT-001'' ''complete'' [] True,
                  row ''FEAT-002'' ''pr-open'' [''FEAT-001''] True] {}
     = Some (Inr (Some (Pr, row ''FEAT-002'' ''pr-open'' [''FEAT-001''] True)))"
proof (rule passes_routes_to_pr [where pre = "[row ''FEAT-001'' ''complete'' [] True]"
                                   and post = "[]"])
  show "resolveOrder [row ''FEAT-001'' ''complete'' [] True,
                      row ''FEAT-002'' ''pr-open'' [''FEAT-001''] True]
          = Some (Inr ([row ''FEAT-001'' ''complete'' [] True]
                        @ row ''FEAT-002'' ''pr-open'' [''FEAT-001''] True # []))"
    by code_simp
  show "\<forall>g\<in>set [row ''FEAT-001'' ''complete'' [] True].
          status g = ''complete'' \<or> fid g \<in> {} \<or>
          \<not> depsAreMet [row ''FEAT-001'' ''complete'' [] True,
                         row ''FEAT-002'' ''pr-open'' [''FEAT-001''] True] (fid g)"
    by (simp add: row_def)
  show "passes (row ''FEAT-002'' ''pr-open'' [''FEAT-001''] True)"
    by (simp add: row_def)
  show "status (row ''FEAT-002'' ''pr-open'' [''FEAT-001''] True) \<noteq> ''complete''"
    by (simp add: row_def)
  show "fid (row ''FEAT-002'' ''pr-open'' [''FEAT-001''] True) \<notin> {}"
    by simp
  show "depsAreMet [row ''FEAT-001'' ''complete'' [] True,
                    row ''FEAT-002'' ''pr-open'' [''FEAT-001''] True]
          (fid (row ''FEAT-002'' ''pr-open'' [''FEAT-001''] True))"
    by (simp add: row_def depsAreMet_def getFeature_def)
qed

section \<open>Properties of \<open>depsAreMet\<close>\<close>

text \<open>
  C1, as stated, fails on the code: \<open>depsAreMet\<close> reads \<open>passes\<close>, not \<open>status\<close>. With the
  only dependency at status \<open>complete\<close> but \<open>passes = false\<close> the result is false; with the
  dependency at status \<open>approved\<close> and \<open>passes = true\<close> the result is true.
\<close>

theorem depsAreMet_status_counterexample:
  "getFeature [row ''FEAT-001'' ''complete'' [] False,
               row ''FEAT-002'' ''pending'' [''FEAT-001''] False] ''FEAT-001''
     = Some (row ''FEAT-001'' ''complete'' [] False)
   \<and> status (row ''FEAT-001'' ''complete'' [] False) = ''complete''
   \<and> \<not> depsAreMet [row ''FEAT-001'' ''complete'' [] False,
                    row ''FEAT-002'' ''pending'' [''FEAT-001''] False] ''FEAT-002''
   \<and> getFeature [row ''FEAT-001'' ''approved'' [] True,
                 row ''FEAT-002'' ''pending'' [''FEAT-001''] False] ''FEAT-001''
     = Some (row ''FEAT-001'' ''approved'' [] True)
   \<and> status (row ''FEAT-001'' ''approved'' [] True) \<noteq> ''complete''
   \<and> depsAreMet [row ''FEAT-001'' ''approved'' [] True,
                  row ''FEAT-002'' ''pending'' [''FEAT-001''] False] ''FEAT-002''"
  by (simp add: depsAreMet_def getFeature_def row_def)

text \<open>
  C1, amended. For every feature \<open>f\<close> present in the store, \<open>depsAreMet\<close> of its id is true
  if and only if every id in \<open>depends_on\<close> refers to an existing feature whose \<open>passes\<close> is
  true; the status of a dependency plays no part.
\<close>

theorem depsAreMet_iff_passes:
  assumes "getFeature s i = Some f"
  shows "depsAreMet s i \<longleftrightarrow>
           (\<forall>d\<in>set (depends_on f). \<exists>g. getFeature s d = Some g \<and> passes g)"
  using assms
  by (auto simp: depsAreMet_def list_all_iff split: option.splits)

theorem depsAreMet_iff_passes_witness:
  "getFeature [row ''FEAT-001'' ''approved'' [] True,
               row ''FEAT-002'' ''pending'' [''FEAT-001''] False] ''FEAT-002''
     = Some (row ''FEAT-002'' ''pending'' [''FEAT-001''] False)
   \<and> depsAreMet [row ''FEAT-001'' ''approved'' [] True,
                  row ''FEAT-002'' ''pending'' [''FEAT-001''] False] ''FEAT-002''"
proof -
  have h: "getFeature [row ''FEAT-001'' ''approved'' [] True,
                       row ''FEAT-002'' ''pending'' [''FEAT-001''] False] ''FEAT-002''
             = Some (row ''FEAT-002'' ''pending'' [''FEAT-001''] False)"
    by (simp add: getFeature_def row_def)
  from h depsAreMet_iff_passes [OF h] show ?thesis
    by (simp add: getFeature_def row_def)
qed

section \<open>Properties of \<open>update\<close>\<close>

lemma fid_assign: "key fl \<in> set allowed \<Longrightarrow> fid (assign r fl) = fid r"
  by (cases fl) (simp_all add: allowed_def)

lemma fid_foldl_allowed:
  "\<forall>fl\<in>set fs. key fl \<in> set allowed \<Longrightarrow> fid (foldl assign r fs) = fid r"
  by (induction fs arbitrary: r) (simp_all add: fid_assign)

lemma fid_foldl_assign [simp]:
  "fid (foldl assign r (filter (\<lambda>fl. key fl \<in> set allowed) fs)) = fid r"
  by (rule fid_foldl_allowed) simp

lemma getFeature_fid: "getFeature s i = Some f \<Longrightarrow> fid f = i"
  by (auto simp: getFeature_def find_Some_iff)

lemma update_keeps_ids:
  assumes "update s i flds = Inr (s', x)"
  shows "map fid s' = map fid s"
proof (cases "getFeature s i")
  case None
  with assms have "s' = s"
    by (auto simp: update_def run_update_def Let_def split: if_splits)
  then show ?thesis by simp
next
  case (Some old)
  let ?new = "foldl assign old (filter (\<lambda>fl. key fl \<in> set allowed) flds)"
  have fn: "fid ?new = i" using getFeature_fid [OF Some] by simp
  from assms Some have "s' = s \<or> s' = map (\<lambda>r. if fid r = i then ?new else r) s"
    by (auto simp: update_def run_update_def Let_def split: if_splits)
  moreover have "map fid (map (\<lambda>r. if fid r = i then ?new else r) s) = map fid s"
    using fn by (induction s) auto
  ultimately show ?thesis by auto
qed

text \<open>
  C10. When no row has the id, \<open>update\<close> returns \<open>null\<close> and the store it leaves is the
  store it found, whatever the fields are. For every id, present or not, the result of
  \<open>update\<close> is the result for the allow-listed entries of \<open>fields\<close> alone: an entry under
  another key, such as \<open>id\<close>, is not written; in particular no \<open>update\<close> changes the id of a
  row, adds a row or removes one.
\<close>

theorem update_missing_id:
  "(getFeature s i = None \<longrightarrow> update s i flds = Inr (s, None))
   \<and> update s i flds = update s i (filter (\<lambda>fl. key fl \<in> set allowed) flds)
   \<and> (\<forall>s' x. update s i flds = Inr (s', x) \<longrightarrow> map fid s' = map fid s)"
proof (intro conjI impI allI)
  assume "getFeature s i = None"
  then show "update s i flds = Inr (s, None)"
    by (simp add: update_def run_update_def Let_def)
next
  show "update s i flds = update s i (filter (\<lambda>fl. key fl \<in> set allowed) flds)"
    by (simp add: update_def)
next
  fix s' x assume "update s i flds = Inr (s', x)"
  then show "map fid s' = map fid s" by (rule update_keeps_ids)
qed

theorem update_missing_id_witness:
  "update [row ''FEAT-001'' ''pending'' [] False] ''FEAT-002''
      [Status ''complete'', Id ''FEAT-009'', Passes True]
     = Inr ([row ''FEAT-001'' ''pending'' [] False], None)
   \<and> update [row ''FEAT-001'' ''pending'' [] False] ''FEAT-001''
        [Id ''FEAT-009'', Status ''in-dev'', Other ''created_at'']
     = Inr ([row ''FEAT-001'' ''in-dev'' [] False], Some (row ''FEAT-001'' ''in-dev'' [] False))
   \<and> map fid [row ''FEAT-001'' ''in-dev'' [] False]
     = map fid [row ''FEAT-001'' ''pending'' [] False]"
proof -
  let ?s = "[row ''FEAT-001'' ''pending'' [] False]"
  let ?flds = "[Id ''FEAT-009'', Status ''in-dev'', Other ''created_at'']"
  have h: "getFeature ?s ''FEAT-002'' = None"
    by (simp add: getFeature_def row_def)
  from update_missing_id [of ?s "''FEAT-002''" "[Status ''complete'', Id ''FEAT-009'', Passes True]"] h
  have a: "update ?s ''FEAT-002'' [Status ''complete'', Id ''FEAT-009'', Passes True]
             = Inr (?s, None)" by blast
  from update_missing_id [of ?s "''FEAT-001''" ?flds]
  have "update ?s ''FEAT-001'' ?flds
          = update ?s ''FEAT-001'' (filter (\<lambda>fl. key fl \<in> set allowed) ?flds)" by blast
  also have "\<dots> = Inr ([row ''FEAT-001'' ''in-dev'' [] False],
                        Some (row ''FEAT-001'' ''in-dev'' [] False))"
    by code_simp
  finally have b: "update ?s ''FEAT-001'' ?flds
          = Inr ([row ''FEAT-001'' ''in-dev'' [] False],
                 Some (row ''FEAT-001'' ''in-dev'' [] False))" .
  from update_missing_id [of ?s "''FEAT-001''" ?flds] b
  have "map fid [row ''FEAT-001'' ''in-dev'' [] False] = map fid ?s" by blast
  with a b show ?thesis by (simp only: simp_thms)
qed

section \<open>Properties of \<open>nextId\<close>\<close>

text \<open>
  C3 fails at \<open>N = 1000\<close>. With \<open>FEAT-999\<close> stored, \<open>nextId\<close> returns \<open>FEAT-1000\<close>; once
  that feature is created, the text order of the ids still puts \<open>FEAT-999\<close> last, and
  \<open>nextId\<close> returns \<open>FEAT-1000\<close> again instead of \<open>FEAT-1001\<close>.
\<close>

theorem nextId_repeats_after_999:
  "nextId [row ''FEAT-999'' ''pending'' [] False] = ''FEAT-1000''
   \<and> create [row ''FEAT-999'' ''pending'' [] False] (row ''FEAT-1000'' ''pending'' [] False)
       = Inr [row ''FEAT-999'' ''pending'' [] False, row ''FEAT-1000'' ''pending'' [] False]
   \<and> nextId [row ''FEAT-999'' ''pending'' [] False, row ''FEAT-1000'' ''pending'' [] False]
       = ''FEAT-1000''"
  by code_simp

section \<open>Properties of the autoplay loop\<close>

lemma next_action_pr_open:
  "getNextAction [row ''FEAT-001'' ''pr-open'' [] True] {}
     = Some (Inr (Some (Pr, row ''FEAT-001'' ''pr-open'' [] True)))"
  by code_simp

lemma next_action_approved:
  "getNextAction [row ''FEAT-001'' ''approved'' [] True] {}
     = Some (Inr (Some (Pr, row ''FEAT-001'' ''approved'' [] True)))"
  by code_simp

lemma createPR_single:
  "createPR [row ''FEAT-001'' st [] True] (row ''FEAT-001'' st [] True)
     = Inr [row ''FEAT-001'' ''pr-open'' [] True]"
  by (simp add: createPR_def update_def run_update_def getFeature_def row_def allowed_def
      valid_statuses_def key_clash_def)

lemma runLoop_spins_at_pr_open:
  "runLoop n e c k
     \<lparr>db = [row ''FEAT-001'' ''pr-open'' [] True], retries = r, escalated = {}\<rparr> = None"
  by (induction n arbitrary: k) (simp_all add: next_action_pr_open createPR_single)

text \<open>
  C2 fails on the code. Take a store whose only feature was passed by QA (\<open>passes = true\<close>,
  status \<open>approved\<close>). The first iteration creates the PR and sets the status to \<open>pr-open\<close>;
  \<open>passes\<close> stays true, so every later iteration is sent to \<open>pr\<close> again: whatever the
  fuel, the agents, the merge outcomes and the configuration, the loop has not ended.
\<close>

theorem autoplay_spins_after_qa_pass:
  "runOrchestratorMode n e c [row ''FEAT-001'' ''approved'' [] True] = None"
  by (cases n)
     (simp_all add: runOrchestratorMode_def next_action_approved createPR_single
        runLoop_spins_at_pr_open)

section \<open>The store under \<open>update\<close> and \<open>create\<close>\<close>

lemma wf_store_iff:
  "wf_store s \<longleftrightarrow>
     distinct (map fid s) \<and> (\<forall>r\<in>set s. status r \<in> set valid_statuses) \<and>
     (\<forall>r1\<in>set s. \<forall>r2\<in>set s. openspec_change_id r1 \<noteq> [] \<longrightarrow>
        openspec_change_id r2 = openspec_change_id r1 \<longrightarrow>
        openspec_task_group r2 = openspec_task_group r1 \<longrightarrow> fid r2 = fid r1)"
  by (auto simp: wf_store_def key_clash_def list_all_iff list_ex_iff)

lemma wf_store_unique:
  assumes "wf_store s" "r1 \<in> set s" "r2 \<in> set s" "openspec_change_id r1 \<noteq> []"
    "openspec_change_id r2 = openspec_change_id r1"
    "openspec_task_group r2 = openspec_task_group r1"
  shows "fid r2 = fid r1"
proof -
  from assms(1) have "\<forall>r1\<in>set s. \<forall>r2\<in>set s. openspec_change_id r1 \<noteq> [] \<longrightarrow>
        openspec_change_id r2 = openspec_change_id r1 \<longrightarrow>
        openspec_task_group r2 = openspec_task_group r1 \<longrightarrow> fid r2 = fid r1"
    unfolding wf_store_iff by (elim conjE)
  with assms(2-6) show ?thesis by blast
qed

lemma getFeature_Some_mem: "getFeature s i = Some r \<Longrightarrow> r \<in> set s \<and> fid r = i"
  by (auto simp: getFeature_def find_Some_iff)

lemma getFeature_None_iff: "getFeature s i = None \<longleftrightarrow> i \<notin> fid ` set s"
  by (auto simp: getFeature_def find_None_iff)

lemma getFeature_distinct:
  "distinct (map fid s) \<Longrightarrow> r \<in> set s \<Longrightarrow> getFeature s (fid r) = Some r"
  by (induction s) (auto simp: getFeature_def)

lemma replace_row_id:
  "distinct (map fid s) \<Longrightarrow> r \<in> set s \<Longrightarrow> map (\<lambda>x. if fid x = fid r then r else x) s = s"
proof -
  assume d: "distinct (map fid s)" and m: "r \<in> set s"
  then have "inj_on fid (set s)" by (simp add: distinct_map)
  with m have "\<And>x. x \<in> set s \<Longrightarrow> fid x = fid r \<Longrightarrow> x = r"
    by (auto dest: inj_onD)
  then show ?thesis by (intro map_idI) auto
qed

lemma getFeature_replace:
  "fid new = i \<Longrightarrow>
   getFeature (map (\<lambda>r. if fid r = i then new else r) s) j =
     (if j = i then map_option (\<lambda>_. new) (getFeature s i) else getFeature s j)"
  by (induction s) (auto simp: getFeature_def)

text \<open>What a successful update has done.\<close>

lemma update_Inr_cases:
  assumes "update s i flds = Inr (s', x)" and "wf_store s"
  obtains (absent) "getFeature s i = None" "s' = s" "x = None"
  | (present) old new where "getFeature s i = Some old"
      "new = foldl assign old (filter (\<lambda>fl. key fl \<in> set allowed) flds)"
      "s' = map (\<lambda>r. if fid r = i then new else r) s" "x = Some new"
      "status new \<in> set valid_statuses" "\<not> key_clash s new"
proof (cases "getFeature s i")
  case None
  with assms(1) have "s' = s" "x = None"
    by (auto simp: update_def run_update_def Let_def split: if_splits)
  with None show ?thesis by (rule absent)
next
  case (Some old)
  define sets where "sets = filter (\<lambda>fl. key fl \<in> set allowed) flds"
  define new where "new = foldl assign old sets"
  have mem: "old \<in> set s" "fid old = i" using Some by (auto dest: getFeature_Some_mem)
  have d: "distinct (map fid s)" using assms(2) by (simp add: wf_store_iff)
  show ?thesis
  proof (cases "sets = []")
    case True
    from True assms(1) Some have eq: "s' = s" "x = Some old"
      by (auto simp: update_def sets_def)
    have idm: "map (\<lambda>r. if fid r = i then old else r) s = s"
      using replace_row_id [OF d mem(1)] mem(2) by simp
    have okold: "status old \<in> set valid_statuses" "\<not> key_clash s old"
      using assms(2) mem(1) by (auto simp: wf_store_def list_all_iff)
    show ?thesis
    proof (rule present [of old old])
      show "getFeature s i = Some old" by fact
      show "old = foldl assign old (filter (\<lambda>fl. key fl \<in> set allowed) flds)"
        using True by (simp add: sets_def)
      show "s' = map (\<lambda>r. if fid r = i then old else r) s"
        using eq(1) idm by simp
      show "x = Some old" by fact
      show "status old \<in> set valid_statuses" by fact
      show "\<not> key_clash s old" by fact
    qed
  next
    case False
    with assms(1) Some have ru: "run_update s i sets = Inr s'" and x: "x = getFeature s' i"
      by (auto simp: update_def sets_def Let_def split: sum.splits)
    from ru Some have ok: "status new \<in> set valid_statuses" "\<not> key_clash s new"
      and s': "s' = map (\<lambda>r. if fid r = i then new else r) s"
      by (auto simp: run_update_def new_def Let_def split: if_splits)
    have fn: "fid new = i" using mem(2) by (simp add: new_def sets_def)
    have "getFeature s' i = Some new"
      using getFeature_replace [OF fn, of s i] Some unfolding s' by simp
    with x ok s' Some show ?thesis
      using new_def sets_def by (intro present [of old new]) simp_all
  qed
qed

lemma update_wf:
  assumes "update s i flds = Inr (s', x)" and "wf_store s"
  shows "wf_store s'"
  using assms
proof (cases rule: update_Inr_cases)
  case absent
  then show ?thesis using assms(2) by simp
next
  case (present old new)
  have fn: "fid new = i" using present(1,2) by (auto dest: getFeature_Some_mem)
  have ids: "map fid s' = map fid s"
    unfolding present(3) by (induction s) (auto simp: fn)
  have sets: "set s' \<subseteq> insert new (set s)"
    unfolding present(3) by auto
  have other: "\<And>r. r \<in> set s' \<Longrightarrow> fid r \<noteq> i \<Longrightarrow> r \<in> set s"
    unfolding present(3) by (auto split: if_splits simp: fn)
  have same: "\<And>r. r \<in> set s' \<Longrightarrow> fid r = i \<Longrightarrow> r = new"
    unfolding present(3) by (auto split: if_splits)
  have nc: "\<And>g. g \<in> set s \<Longrightarrow> fid g \<noteq> i \<Longrightarrow> openspec_change_id new \<noteq> [] \<Longrightarrow>
      openspec_change_id g = openspec_change_id new \<Longrightarrow>
      openspec_task_group g = openspec_task_group new \<Longrightarrow> False"
    using present(6) fn by (auto simp: key_clash_def list_ex_iff)
  show ?thesis
    unfolding wf_store_iff
  proof (intro conjI ballI impI)
    show "distinct (map fid s')" using ids assms(2) by (simp add: wf_store_iff)
  next
    fix r assume "r \<in> set s'"
    then show "status r \<in> set valid_statuses"
      using sets present(5) assms(2) by (auto simp: wf_store_iff)
  next
    fix r1 r2
    assume a: "r1 \<in> set s'" "r2 \<in> set s'" "openspec_change_id r1 \<noteq> []"
      "openspec_change_id r2 = openspec_change_id r1"
      "openspec_task_group r2 = openspec_task_group r1"
    show "fid r2 = fid r1"
    proof (cases "fid r1 = i")
      case True
      then have r1: "r1 = new" using same a(1) by blast
      show ?thesis
      proof (cases "fid r2 = i")
        case True then show ?thesis using \<open>fid r1 = i\<close> by simp
      next
        case False
        then have "r2 \<in> set s" using other a(2) by blast
        from nc [OF this False] a(3-5) r1 show ?thesis by blast
      qed
    next
      case False
      then have m1: "r1 \<in> set s" using other a(1) by blast
      show ?thesis
      proof (cases "fid r2 = i")
        case True
        then have "r2 = new" using same a(2) by blast
        from nc [OF m1 False] a(3-5) this show ?thesis by metis
      next
        case f2: False
        then have "r2 \<in> set s" using other a(2) by blast
        then show ?thesis using wf_store_unique [OF assms(2) m1 _ a(3-5)] by blast
      qed
    qed
  qed
qed

lemma wf_mem_iff_get: "wf_store s \<Longrightarrow> r \<in> set s \<longleftrightarrow> getFeature s (fid r) = Some r"
  using getFeature_distinct [of s r] getFeature_Some_mem [of s "fid r" r]
  by (auto simp: wf_store_iff)

lemma wf_get_mem: "wf_store s \<Longrightarrow> r \<in> set s \<Longrightarrow> getFeature s (fid r) = Some r"
  using getFeature_distinct [of s r] by (simp add: wf_store_iff)

lemma wf_same_id:
  assumes "wf_store s" "r1 \<in> set s" "r2 \<in> set s" "fid r1 = fid r2"
  shows "r1 = r2"
proof -
  from assms(1) have "inj_on fid (set s)" by (simp add: wf_store_iff distinct_map)
  then show ?thesis using assms(4,2,3) by (rule inj_onD)
qed

lemma update_ids:
  assumes "update s i flds = Inr (s', x)" and "wf_store s"
  shows "map fid s' = map fid s"
  using assms
proof (cases rule: update_Inr_cases)
  case absent then show ?thesis by simp
next
  case (present old new)
  then have "fid new = i" by (auto dest: getFeature_Some_mem)
  then show ?thesis unfolding present(3) by (induction s) auto
qed

lemma update_get:
  assumes "update s i flds = Inr (s', x)" and "wf_store s"
  shows "getFeature s' j = (if j = i then x else getFeature s j)"
  using assms
proof (cases rule: update_Inr_cases)
  case absent then show ?thesis by simp
next
  case (present old new)
  then have "fid new = i" by (auto dest: getFeature_Some_mem)
  from getFeature_replace [OF this, of s j] present show ?thesis by simp
qed

lemma update_result:
  assumes "update s i flds = Inr (s', x)" and "wf_store s"
  shows "x = map_option (\<lambda>old. foldl assign old (filter (\<lambda>fl. key fl \<in> set allowed) flds))
               (getFeature s i)"
  using assms by (cases rule: update_Inr_cases) simp_all

lemma create_Inr:
  assumes "create s f = Inr s'"
  shows "s' = s @ [serialize f]" "fid f \<notin> fid ` set s"
    "status (serialize f) \<in> set valid_statuses" "\<not> key_clash s (serialize f)"
  using assms
  by (auto simp: create_def Let_def list_ex_iff serialize_def split: if_splits)

lemma fid_serialize [simp]: "fid (serialize f) = fid f"
  by (simp add: serialize_def)

lemma create_wf:
  assumes "create s f = Inr s'" and "wf_store s"
  shows "wf_store s'"
proof -
  let ?r = "serialize f"
  note c = create_Inr [OF assms(1)]
  have nc: "\<And>g. g \<in> set s \<Longrightarrow> openspec_change_id ?r \<noteq> [] \<Longrightarrow>
      openspec_change_id g = openspec_change_id ?r \<Longrightarrow>
      openspec_task_group g = openspec_task_group ?r \<Longrightarrow> False"
    using c(2,4) unfolding key_clash_def list_ex_iff image_iff fid_serialize by metis
  show ?thesis
    unfolding wf_store_iff
  proof (intro conjI ballI impI)
    show "distinct (map fid s')"
      using c(1,2) assms(2) by (simp add: wf_store_iff)
  next
    fix r assume "r \<in> set s'"
    then show "status r \<in> set valid_statuses"
      using c(1,3) assms(2) by (auto simp: wf_store_iff)
  next
    fix r1 r2
    assume a: "r1 \<in> set s'" "r2 \<in> set s'" "openspec_change_id r1 \<noteq> []"
      "openspec_change_id r2 = openspec_change_id r1"
      "openspec_task_group r2 = openspec_task_group r1"
    from a(1,2) c(1) consider "r1 = ?r" "r2 = ?r" | "r1 = ?r" "r2 \<in> set s"
      | "r1 \<in> set s" "r2 = ?r" | "r1 \<in> set s" "r2 \<in> set s" by auto
    then show "fid r2 = fid r1"
    proof cases
      case 1 then show ?thesis by simp
    next
      case 2 with nc [of r2] a(3-5) show ?thesis by metis
    next
      case 3 with nc [of r1] a(3-5) show ?thesis by metis
    next
      case 4 then show ?thesis using wf_store_unique [OF assms(2) _ _ a(3-5)] by blast
    qed
  qed
qed

lemma getFeature_append:
  "getFeature (s @ t) j = (case getFeature s j of None \<Rightarrow> getFeature t j | Some r \<Rightarrow> Some r)"
  by (induction s) (auto simp: getFeature_def)

lemma create_get:
  assumes "create s f = Inr s'"
  shows "getFeature s' j = (if j = fid f then Some (serialize f) else getFeature s j)"
proof -
  note c = create_Inr(1,2) [OF assms]
  from c(2) have "getFeature s (fid f) = None" by (simp add: getFeature_None_iff)
  then show ?thesis
    unfolding c(1) getFeature_append
    by (auto simp: getFeature_def split: option.splits)
qed

lemma featureData_allowed [simp]:
  "filter (\<lambda>fl. key fl \<in> set allowed) (featureData c rq sc grp g) = featureData c rq sc grp g"
  by (simp add: featureData_def allowed_def)

lemma featureData_fid [simp]:
  "fid (foldl assign r (featureData c rq sc grp g)) = fid r"
  by (simp add: featureData_def)

lemma featureData_key [simp]:
  "openspec_change_id (foldl assign r (featureData c rq sc grp g)) = c"
  "openspec_task_group (foldl assign r (featureData c rq sc grp g)) = g"
  by (simp_all add: featureData_def)

lemma featureData_frame [simp]:
  "status (foldl assign r (featureData c rq sc grp g)) = status r"
  "passes (foldl assign r (featureData c rq sc grp g)) = passes r"
  "depends_on (foldl assign r (featureData c rq sc grp g)) = depends_on r"
  "architecture_compliance (foldl assign r (featureData c rq sc grp g)) = architecture_compliance r"
  "assigned_to (foldl assign r (featureData c rq sc grp g)) = assigned_to r"
  "reviewed_by (foldl assign r (featureData c rq sc grp g)) = reviewed_by r"
  "tested_by (foldl assign r (featureData c rq sc grp g)) = tested_by r"
  by (simp_all add: featureData_def)

lemma featureData_idem [simp]:
  "foldl assign (foldl assign r (featureData c rq sc grp g)) (featureData c rq sc grp g)
     = foldl assign r (featureData c rq sc grp g)"
  by (simp add: featureData_def)

lemma findByOpenspecKey_Some:
  assumes "findByOpenspecKey s c g = Some r" and "wf_store s"
  shows "r \<in> set s" "openspec_change_id r = c" "openspec_task_group r = g"
proof -
  from assms(1) obtain x where x: "find (\<lambda>r. openspec_change_id r = c \<and> openspec_task_group r = g) s = Some x"
    and g: "getFeature s (fid x) = Some r"
    by (auto simp: findByOpenspecKey_def split: option.splits)
  from x have xm: "x \<in> set s" "openspec_change_id x = c" "openspec_task_group x = g"
    by (auto simp: find_Some_iff)
  with assms(2) g have "r = x" by (simp add: wf_mem_iff_get)
  with xm show "r \<in> set s" "openspec_change_id r = c" "openspec_task_group r = g" by simp_all
qed

lemma findByOpenspecKey_None:
  assumes "findByOpenspecKey s c g = None" and "r \<in> set s"
  shows "\<not> (openspec_change_id r = c \<and> openspec_task_group r = g)"
proof
  assume k: "openspec_change_id r = c \<and> openspec_task_group r = g"
  with assms(2) obtain x where x: "find (\<lambda>r. openspec_change_id r = c \<and> openspec_task_group r = g) s = Some x"
    by (cases "find (\<lambda>r. openspec_change_id r = c \<and> openspec_task_group r = g) s")
       (auto simp: find_None_iff)
  then have "x \<in> set s" by (auto simp: find_Some_iff)
  then have "getFeature s (fid x) \<noteq> None" by (auto simp: getFeature_None_iff)
  with x assms(1) show False by (simp add: findByOpenspecKey_def)
qed

lemma findByOpenspecKey_unique:
  assumes "wf_store s" "c \<noteq> []" "r \<in> set s" "openspec_change_id r = c" "openspec_task_group r = g"
  shows "findByOpenspecKey s c g = Some r"
proof (cases "findByOpenspecKey s c g")
  case None
  from findByOpenspecKey_None [OF None assms(3)] assms(4,5) show ?thesis by simp
next
  case (Some x)
  note x = findByOpenspecKey_Some [OF Some assms(1)]
  have "fid x = fid r"
    using wf_store_unique [OF assms(1) assms(3) x(1)] assms(2,4,5) x(2,3) by simp
  then have "x = r" using assms(1,3) x(1) by (simp add: wf_mem_iff_get)
  with Some show ?thesis by simp
qed

lemma upserted_Nil: "wf_store s \<Longrightarrow> upserted c rq sc g [] s s"
  by (simp add: upserted_def wf_get_mem)

lemma upserted_update:
  assumes f: "findByOpenspecKey s c (g + 1) = Some ex"
    and u: "update s (fid ex) (featureData c rq sc grp (g + 1)) = Inr (sm, x)"
    and wf: "wf_store s"
  shows "upserted c rq sc g [grp] s sm"
proof -
  note ex = findByOpenspecKey_Some [OF f wf]
  let ?new = "foldl assign ex (featureData c rq sc grp (g + 1))"
  have gex: "getFeature s (fid ex) = Some ex" using wf ex(1) by (rule wf_get_mem)
  have x: "x = Some ?new" using update_result [OF u wf] gex by simp
  have wfm: "wf_store sm" using update_wf [OF u wf] .
  have get: "\<And>j. getFeature sm j = (if j = fid ex then Some ?new else getFeature s j)"
    using update_get [OF u wf] x by simp
  have ids: "fid ` set sm = fid ` set s"
    using update_ids [OF u wf] by (metis set_map)
  have newm: "?new \<in> set sm" using get [of "fid ex"] by (auto dest: getFeature_Some_mem)
  show ?thesis
    unfolding upserted_def
  proof (intro conjI ballI allI impI)
    show "wf_store sm" by fact
  next
    fix r assume r: "r \<in> set s"
    show "\<exists>r'. getFeature sm (fid r) = Some r' \<and>
        (r' = r \<or>
         (openspec_change_id r = c \<and>
          (\<exists>j<length [grp]. openspec_task_group r = g + 1 + int j \<and>
             r' = foldl assign r (featureData c rq sc ([grp] ! j) (g + 1 + int j)))))"
    proof (cases "fid r = fid ex")
      case True
      have re: "r = ex" using wf r ex(1) True by (rule wf_same_id)
      have "getFeature sm (fid r) = Some ?new" using get [of "fid ex"] re by simp
      moreover have "openspec_change_id r = c" "openspec_task_group r = g + 1 + int 0"
        "?new = foldl assign r (featureData c rq sc ([grp] ! 0) (g + 1 + int 0))"
        using ex(2,3) re by simp_all
      ultimately show ?thesis by (metis length_Cons zero_less_Suc)
    next
      case False
      then show ?thesis using get [of "fid r"] wf_get_mem [OF wf r] by simp
    qed
  next
    fix r' assume "r' \<in> set sm"
    then show "fid r' \<in> fid ` set s \<or>
        (openspec_change_id r' = c \<and> g < openspec_task_group r' \<and>
         openspec_task_group r' \<le> g + int (length [grp]))"
      using ids by blast
  next
    fix j assume "j < length [grp]"
    then have "j = 0" by simp
    then show "\<exists>r'\<in>set sm. openspec_change_id r' = c \<and>
        openspec_task_group r' = g + 1 + int j \<and>
        foldl assign r' (featureData c rq sc ([grp] ! j) (g + 1 + int j)) = r'"
      using newm by (intro bexI [of _ ?new]) simp_all
  qed
qed

lemma serialize_new_row:
  "serialize (foldl assign (row i ''pending'' [] False) (featureData c rq sc grp g))
     = foldl assign (row i ''pending'' [] False) (featureData c rq sc grp g)"
  by (simp add: serialize_def featureData_def row_def)

lemma upserted_create:
  assumes cr: "create s (foldl assign (row i ''pending'' [] False)
                           (featureData c rq sc grp (g + 1))) = Inr sm"
    and wf: "wf_store s"
  shows "upserted c rq sc g [grp] s sm"
proof -
  let ?new = "foldl assign (row i ''pending'' [] False) (featureData c rq sc grp (g + 1))"
  note c = create_Inr [OF cr, unfolded serialize_new_row]
  have wfm: "wf_store sm" using create_wf [OF cr wf] .
  have get: "\<And>j. getFeature sm j = (if j = fid ?new then Some ?new else getFeature s j)"
    using create_get [OF cr] by (simp add: serialize_new_row)
  show ?thesis
    unfolding upserted_def
  proof (intro conjI ballI allI impI)
    show "wf_store sm" by fact
  next
    fix r assume r: "r \<in> set s"
    then have "fid r \<noteq> fid ?new" using c(2) by (metis imageI)
    then have "getFeature sm (fid r) = Some r"
      using get [of "fid r"] wf_get_mem [OF wf r] by simp
    then show "\<exists>r'. getFeature sm (fid r) = Some r' \<and>
        (r' = r \<or>
         (openspec_change_id r = c \<and>
          (\<exists>j<length [grp]. openspec_task_group r = g + 1 + int j \<and>
             r' = foldl assign r (featureData c rq sc ([grp] ! j) (g + 1 + int j)))))"
      by simp
  next
    fix r' assume "r' \<in> set sm"
    then have "r' \<in> set s \<or> r' = ?new" using c(1) by auto
    then show "fid r' \<in> fid ` set s \<or>
        (openspec_change_id r' = c \<and> g < openspec_task_group r' \<and>
         openspec_task_group r' \<le> g + int (length [grp]))"
      by auto
  next
    fix j assume "j < length [grp]"
    then have "j = 0" by simp
    moreover have "?new \<in> set sm" using c(1) by simp
    ultimately show "\<exists>r'\<in>set sm. openspec_change_id r' = c \<and>
        openspec_task_group r' = g + 1 + int j \<and>
        foldl assign r' (featureData c rq sc ([grp] ! j) (g + 1 + int j)) = r'"
      by (intro bexI [of _ ?new]) simp_all
  qed
qed

lemma upserted_wf: "upserted c rq sc g grps s s1 \<Longrightarrow> wf_store s1"
  by (simp add: upserted_def)

lemma upserted_old:
  assumes "upserted c rq sc g grps s s1" "r \<in> set s"
  obtains r' where "getFeature s1 (fid r) = Some r'" "r' = r"
  | r' j where "getFeature s1 (fid r) = Some r'" "openspec_change_id r = c" "j < length grps"
      "openspec_task_group r = g + 1 + int j"
      "r' = foldl assign r (featureData c rq sc (grps ! j) (g + 1 + int j))"
  using assms unfolding upserted_def by blast

lemma upserted_rows:
  assumes "upserted c rq sc g grps s s1" "r' \<in> set s1"
  shows "fid r' \<in> fid ` set s \<or>
         (openspec_change_id r' = c \<and> g < openspec_task_group r' \<and>
          openspec_task_group r' \<le> g + int (length grps))"
  using assms unfolding upserted_def by blast

lemma upserted_group:
  assumes "upserted c rq sc g grps s s1" "j < length grps"
  obtains r' where "r' \<in> set s1" "openspec_change_id r' = c"
    "openspec_task_group r' = g + 1 + int j"
    "foldl assign r' (featureData c rq sc (grps ! j) (g + 1 + int j)) = r'"
  using assms unfolding upserted_def by blast

lemma upserted_Cons:
  assumes A: "upserted c rq sc g [grp] s sm"
    and B: "upserted c rq sc (g + 1) rest sm s1"
  shows "upserted c rq sc g (grp # rest) s s1"
proof -
  have wf1: "wf_store s1" using B by (rule upserted_wf)
  have wfm: "wf_store sm" using A by (rule upserted_wf)
  text \<open>A row of \<open>sm\<close> with group \<open>g + 1\<close> is left alone by the rest.\<close>
  have keep: "getFeature s1 (fid rm) = Some rm"
    if "rm \<in> set sm" "openspec_task_group rm = g + 1" for rm
    using B that(1)
  proof (cases rule: upserted_old)
    case (1 r') then show ?thesis by simp
  next
    case (2 r' j) with that(2) show ?thesis by simp
  qed
  show ?thesis
    unfolding upserted_def
  proof (intro conjI ballI allI impI)
    show "wf_store s1" by fact
  next
    fix r assume r: "r \<in> set s"
    let ?goal = "\<exists>r'. getFeature s1 (fid r) = Some r' \<and>
        (r' = r \<or>
         (openspec_change_id r = c \<and>
          (\<exists>j<length (grp # rest). openspec_task_group r = g + 1 + int j \<and>
             r' = foldl assign r (featureData c rq sc ((grp # rest) ! j) (g + 1 + int j)))))"
    from A r show ?goal
    proof (cases rule: upserted_old)
      case (1 rm)
      then have rm: "r \<in> set sm" by (auto dest: getFeature_Some_mem)
      from B rm show ?thesis
      proof (cases rule: upserted_old)
        case (1 r') then show ?thesis by simp
      next
        case (2 r' j)
        have "Suc j < length (grp # rest)" using 2(3) by simp
        moreover have "openspec_task_group r = g + 1 + int (Suc j)" using 2(4) by simp
        moreover have "r' = foldl assign r (featureData c rq sc ((grp # rest) ! Suc j)
                              (g + 1 + int (Suc j)))"
          using 2(5) by (simp add: add.commute add.left_commute)
        ultimately show ?thesis using 2(1,2) by blast
      qed
    next
      case (2 rm j)
      from 2(3) have j0: "j = 0" by simp
      have rmm: "rm \<in> set sm" "fid rm = fid r"
        using 2(1) by (auto dest: getFeature_Some_mem)
      have "openspec_task_group rm = g + 1" unfolding 2(5) using j0 by simp
      from keep [OF rmm(1) this] have "getFeature s1 (fid r) = Some rm"
        using rmm(2) by simp
      moreover have "0 < length (grp # rest)" by simp
      moreover have "openspec_task_group r = g + 1 + int 0" using 2(4) j0 by simp
      moreover have "rm = foldl assign r (featureData c rq sc ((grp # rest) ! 0)
                            (g + 1 + int 0))"
        using 2(5) j0 by simp
      ultimately show ?thesis using 2(2) by blast
    qed
  next
    fix r' assume r': "r' \<in> set s1"
    let ?goal = "fid r' \<in> fid ` set s \<or>
        (openspec_change_id r' = c \<and> g < openspec_task_group r' \<and>
         openspec_task_group r' \<le> g + int (length (grp # rest)))"
    from upserted_rows [OF B r'] show ?goal
    proof
      assume "fid r' \<in> fid ` set sm"
      then obtain rm where rm: "rm \<in> set sm" "fid rm = fid r'" by auto
      from upserted_rows [OF A rm(1)] show ?goal
      proof
        assume "fid rm \<in> fid ` set s"
        then show ?goal using rm(2) by simp
      next
        assume k: "openspec_change_id rm = c \<and> g < openspec_task_group rm \<and>
          openspec_task_group rm \<le> g + int (length [grp])"
        then have "openspec_task_group rm = g + 1" by simp
        from keep [OF rm(1) this] have "getFeature s1 (fid r') = Some rm"
          using rm(2) by simp
        moreover have "getFeature s1 (fid r') = Some r'" using wf1 r' by (rule wf_get_mem)
        ultimately have "r' = rm" by simp
        with k show ?goal by simp
      qed
    next
      assume "openspec_change_id r' = c \<and> g + 1 < openspec_task_group r' \<and>
         openspec_task_group r' \<le> g + 1 + int (length rest)"
      then show ?goal by simp
    qed
  next
    fix j assume j: "j < length (grp # rest)"
    let ?goal = "\<exists>r'\<in>set s1. openspec_change_id r' = c \<and>
        openspec_task_group r' = g + 1 + int j \<and>
        foldl assign r' (featureData c rq sc ((grp # rest) ! j) (g + 1 + int j)) = r'"
    show ?goal
    proof (cases j)
      case 0
      have "0 < length [grp]" by simp
      with A obtain rm where rm: "rm \<in> set sm" "openspec_change_id rm = c"
        "openspec_task_group rm = g + 1 + int 0"
        "foldl assign rm (featureData c rq sc ([grp] ! 0) (g + 1 + int 0)) = rm"
        by (rule upserted_group)
      from rm(3) have "openspec_task_group rm = g + 1" by simp
      from keep [OF rm(1) this] have "rm \<in> set s1" by (auto dest: getFeature_Some_mem)
      with rm(2-4) 0 show ?thesis by (intro bexI [of _ rm]) simp_all
    next
      case (Suc j')
      then have "j' < length rest" using j by simp
      with B obtain r' where r': "r' \<in> set s1" "openspec_change_id r' = c"
        "openspec_task_group r' = g + 1 + 1 + int j'"
        "foldl assign r' (featureData c rq sc (rest ! j') (g + 1 + 1 + int j')) = r'"
        by (rule upserted_group)
      have e: "g + 1 + int j = g + 1 + 1 + int j'" using Suc by simp
      show ?thesis
        using r' Suc unfolding e by (intro bexI [of _ r']) simp_all
    qed
  qed
qed

lemma upsert_upserted:
  assumes "upsert c rq sc g grps (s, cr, up) = Inr (s1, cr1, up1)" and "wf_store s"
  shows "upserted c rq sc g grps s s1"
  using assms
proof (induction grps arbitrary: g s cr up)
  case Nil
  then show ?case by (simp add: upserted_Nil)
next
  case (Cons grp rest)
  show ?case
  proof (cases "findByOpenspecKey s c (g + 1)")
    case None
    let ?f = "foldl assign (row (nextId s) ''pending'' [] False) (featureData c rq sc grp (g + 1))"
    from Cons.prems(1) None obtain sm where
      cr: "create s ?f = Inr sm"
      and rec: "upsert c rq sc (g + 1) rest (sm, cr @ [nextId s], up) = Inr (s1, cr1, up1)"
      by (auto split: sum.splits)
    have A: "upserted c rq sc g [grp] s sm" using cr Cons.prems(2) by (rule upserted_create)
    have B: "upserted c rq sc (g + 1) rest sm s1"
      using rec upserted_wf [OF A] by (rule Cons.IH)
    from A B show ?thesis by (rule upserted_Cons)
  next
    case (Some ex)
    from Cons.prems(1) Some obtain sm x where
      u: "update s (fid ex) (featureData c rq sc grp (g + 1)) = Inr (sm, x)"
      and rec: "upsert c rq sc (g + 1) rest (sm, cr, up @ [fid ex]) = Inr (s1, cr1, up1)"
      by (auto split: sum.splits)
    have A: "upserted c rq sc g [grp] s sm" using Some u Cons.prems(2) by (rule upserted_update)
    have B: "upserted c rq sc (g + 1) rest sm s1"
      using rec upserted_wf [OF A] by (rule Cons.IH)
    from A B show ?thesis by (rule upserted_Cons)
  qed
qed

lemma wired_refl: "wf_store s \<Longrightarrow> wired ids s s"
  by (simp add: wired_def wf_get_mem)

lemma wired_wf: "wired ids s s' \<Longrightarrow> wf_store s'"
  by (simp add: wired_def)

lemma wired_ids: "wired ids s s' \<Longrightarrow> map fid s' = map fid s"
  by (simp add: wired_def)

lemma wired_row:
  assumes "wired ids s s'" "r \<in> set s"
  obtains "getFeature s' (fid r) = Some r"
  | q where "fid r \<in> set ids" "q \<notin> set (depends_on r)"
      "getFeature s' (fid r) = Some (r\<lparr>depends_on := depends_on r @ [q]\<rparr>)"
  using assms unfolding wired_def by blast

lemma wired_get_None:
  assumes "wired ids s s'"
  shows "getFeature s' i = None \<longleftrightarrow> getFeature s i = None"
  using wired_ids [OF assms] by (metis getFeature_None_iff set_map)

lemma wired_step:
  assumes g: "getFeature s i = Some feat" and n: "p \<notin> set (depends_on feat)"
    and u: "update s i [Depends_on (depends_on feat @ [p])] = Inr (sm, x)"
    and wf: "wf_store s"
  shows "wired [i] s sm"
proof -
  let ?new = "feat\<lparr>depends_on := depends_on feat @ [p]\<rparr>"
  have fm: "feat \<in> set s" "fid feat = i" using g by (auto dest: getFeature_Some_mem)
  have x: "x = Some ?new" using update_result [OF u wf] g by (simp add: allowed_def)
  have get: "\<And>j. getFeature sm j = (if j = i then Some ?new else getFeature s j)"
    using update_get [OF u wf] x by simp
  show ?thesis
    unfolding wired_def
  proof (intro conjI ballI)
    show "wf_store sm" using u wf by (rule update_wf)
    show "map fid sm = map fid s" using u wf by (rule update_ids)
  next
    fix r assume r: "r \<in> set s"
    show "\<exists>r'. getFeature sm (fid r) = Some r' \<and>
        (r' = r \<or>
         (fid r \<in> set [i] \<and>
          (\<exists>q. q \<notin> set (depends_on r) \<and> r' = r\<lparr>depends_on := depends_on r @ [q]\<rparr>)))"
    proof (cases "fid r = i")
      case True
      have "r = feat" using wf r fm(1) True fm(2) by (intro wf_same_id [of s]) simp_all
      then show ?thesis using get [of i] True n by auto
    next
      case False
      then show ?thesis using get [of "fid r"] wf_get_mem [OF wf r] by simp
    qed
  qed
qed

lemma wired_trans:
  assumes A: "wired [i] s sm" and B: "wired ids sm s'" and ni: "i \<notin> set ids"
  shows "wired (i # ids) s s'"
  unfolding wired_def
proof (intro conjI ballI)
  show "wf_store s'" using B by (rule wired_wf)
  show "map fid s' = map fid s" using wired_ids [OF A] wired_ids [OF B] by simp
next
  fix r assume r: "r \<in> set s"
  let ?goal = "\<exists>r'. getFeature s' (fid r) = Some r' \<and>
        (r' = r \<or>
         (fid r \<in> set (i # ids) \<and>
          (\<exists>q. q \<notin> set (depends_on r) \<and> r' = r\<lparr>depends_on := depends_on r @ [q]\<rparr>)))"
  from A r show ?goal
  proof (cases rule: wired_row)
    case 1
    then have rm: "r \<in> set sm" by (auto dest: getFeature_Some_mem)
    from B rm show ?thesis
    proof (cases rule: wired_row)
      case 1 then show ?thesis by simp
    next
      case (2 q) then show ?thesis by auto
    qed
  next
    case (2 q)
    let ?rm = "r\<lparr>depends_on := depends_on r @ [q]\<rparr>"
    have rm: "?rm \<in> set sm" using 2(3) by (auto dest: getFeature_Some_mem)
    have fi: "fid r = i" using 2(1) by simp
    from B rm show ?thesis
    proof (cases rule: wired_row)
      case 1
      then show ?thesis using 2(2) fi by auto
    next
      case (2 q')
      then show ?thesis using ni fi by simp
    qed
  qed
qed

lemma wired_weaken: "wired ids s s' \<Longrightarrow> set ids \<subseteq> set ids' \<Longrightarrow> wired ids' s s'"
  unfolding wired_def by blast

lemma wire_wired:
  assumes "wire s ids = Inr s'" and "wf_store s" and "distinct ids"
  shows "wired (tl ids) s s'"
  using assms
proof (induction s ids rule: wire.induct)
  case (1 s p i rest)
  have d: "distinct (i # rest)" "i \<notin> set rest" using "1.prems"(3) by simp_all
  show ?case
  proof (cases "getFeature s i")
    case None
    with "1.prems" have "wire s (i # rest) = Inr s'" by simp
    from "1.IH"(1) [OF None this "1.prems"(2) d(1)]
    show ?thesis by (rule wired_weaken) auto
  next
    case (Some feat)
    show ?thesis
    proof (cases "p \<in> set (depends_on feat)")
      case True
      with Some "1.prems" have "wire s (i # rest) = Inr s'" by simp
      from "1.IH"(3) [OF Some _ this "1.prems"(2) d(1)] True
      show ?thesis by (auto intro: wired_weaken)
    next
      case False
      with Some "1.prems"(1) obtain sm x where
        u: "update s i [Depends_on (depends_on feat @ [p])] = Inr (sm, x)"
        and rec: "wire sm (i # rest) = Inr s'"
        by (auto split: sum.splits)
      have A: "wired [i] s sm" using Some False u "1.prems"(2) by (rule wired_step)
      have B: "wired rest sm s'"
        using "1.IH"(2) [OF Some False u refl rec wired_wf [OF A] d(1)] by simp
      from wired_trans [OF A B d(2)] show ?thesis by simp
    qed
  qed
qed (simp_all add: wired_refl)

lemma wired_keep:
  assumes "wired ids s s'" "getFeature s i = Some r" "i \<notin> set ids"
  shows "getFeature s' i = Some r"
proof -
  have rm: "r \<in> set s" "fid r = i" using assms(2) by (auto dest: getFeature_Some_mem)
  from assms(1) rm(1) show ?thesis
    by (cases rule: wired_row) (use rm(2) assms(3) in simp_all)
qed

lemma chained_Cons:
  "chained s (p # i # rest) \<longleftrightarrow>
     (\<forall>r. getFeature s i = Some r \<longrightarrow> p \<in> set (depends_on r)) \<and> chained s (i # rest)"
proof -
  have "(\<forall>k. Suc k < Suc (Suc (length rest)) \<longrightarrow> P k) \<longleftrightarrow>
        P 0 \<and> (\<forall>k. Suc k < Suc (length rest) \<longrightarrow> P (Suc k))" for P
    by (metis (no_types, opaque_lifting) Suc_less_eq not0_implies_Suc zero_less_Suc)
  then show ?thesis by (simp add: chained_def)
qed

lemma chained_short [simp]: "chained s []" "chained s [i]"
  by (simp_all add: chained_def)

lemma wire_chained:
  assumes "wire s ids = Inr s'" and "wf_store s" and "distinct ids"
  shows "chained s' ids"
  using assms
proof (induction s ids rule: wire.induct)
  case (1 s p i rest)
  have d: "distinct (i # rest)" "i \<notin> set rest" using "1.prems"(3) by simp_all
  show ?case
  proof (cases "getFeature s i")
    case None
    with "1.prems" have rec: "wire s (i # rest) = Inr s'" by simp
    have "getFeature s' i = None"
      using wired_get_None [OF wire_wired [OF rec "1.prems"(2) d(1)]] None by simp
    moreover have "chained s' (i # rest)" using "1.IH"(1) [OF None rec "1.prems"(2) d(1)] .
    ultimately show ?thesis by (simp add: chained_Cons)
  next
    case (Some feat)
    show ?thesis
    proof (cases "p \<in> set (depends_on feat)")
      case True
      with Some "1.prems" have rec: "wire s (i # rest) = Inr s'" by simp
      have "wired rest s s'" using wire_wired [OF rec "1.prems"(2) d(1)] by simp
      from wired_keep [OF this Some d(2)] have "getFeature s' i = Some feat" .
      moreover have "chained s' (i # rest)"
        using "1.IH"(3) [OF Some _ rec "1.prems"(2) d(1)] True by simp
      ultimately show ?thesis using True by (simp add: chained_Cons)
    next
      case False
      with Some "1.prems"(1) obtain sm x where
        u: "update s i [Depends_on (depends_on feat @ [p])] = Inr (sm, x)"
        and rec: "wire sm (i # rest) = Inr s'"
        by (auto split: sum.splits)
      have A: "wired [i] s sm" using Some False u "1.prems"(2) by (rule wired_step)
      have wfm: "wf_store sm" using A by (rule wired_wf)
      have "x = Some (feat\<lparr>depends_on := depends_on feat @ [p]\<rparr>)"
        using update_result [OF u "1.prems"(2)] Some by (simp add: allowed_def)
      then have gm: "getFeature sm i = Some (feat\<lparr>depends_on := depends_on feat @ [p]\<rparr>)"
        using update_get [OF u "1.prems"(2), of i] by simp
      have "wired rest sm s'" using wire_wired [OF rec wfm d(1)] by simp
      from wired_keep [OF this gm d(2)]
      have "getFeature s' i = Some (feat\<lparr>depends_on := depends_on feat @ [p]\<rparr>)" .
      moreover have "chained s' (i # rest)"
        using "1.IH"(2) [OF Some False u refl rec wfm d(1)] by simp
      ultimately show ?thesis by (simp add: chained_Cons)
    qed
  qed
qed simp_all

lemma wire_noop: "chained s ids \<Longrightarrow> wire s ids = Inr s"
proof (induction s ids rule: wire.induct)
  case (1 s p i rest)
  then show ?case
    by (cases "getFeature s i") (auto simp: chained_Cons)
qed simp_all

lemma update_noop:
  assumes wf: "wf_store s" and r: "r \<in> set s"
    and fx: "foldl assign r (filter (\<lambda>fl. key fl \<in> set allowed) flds) = r"
  shows "update s (fid r) flds = Inr (s, Some r)"
proof -
  have g: "getFeature s (fid r) = Some r" using wf r by (rule wf_get_mem)
  have ok: "status r \<in> set valid_statuses" "\<not> key_clash s r"
    using wf r by (auto simp: wf_store_def list_all_iff)
  have idm: "map (\<lambda>x. if fid x = fid r then r else x) s = s"
    using wf r by (intro replace_row_id) (simp_all add: wf_store_iff)
  show ?thesis
    using g ok idm fx by (simp add: update_def run_update_def Let_def)
qed

lemma upsert_stable:
  assumes "wf_store s" "c \<noteq> []"
    and "\<forall>j<length grps. \<exists>r\<in>set s. openspec_change_id r = c \<and>
           openspec_task_group r = g + 1 + int j \<and>
           foldl assign r (featureData c rq sc (grps ! j) (g + 1 + int j)) = r"
  shows "\<exists>up'. upsert c rq sc g grps (s, cr, up) = Inr (s, cr, up')"
  using assms(3)
proof (induction grps arbitrary: g up)
  case Nil
  then show ?case by simp
next
  case (Cons grp rest)
  from Cons.prems obtain r where r: "r \<in> set s" "openspec_change_id r = c"
    "openspec_task_group r = g + 1"
    "foldl assign r (featureData c rq sc grp (g + 1)) = r"
    by fastforce
  have f: "findByOpenspecKey s c (g + 1) = Some r"
    using assms(1,2) r(1-3) by (rule findByOpenspecKey_unique)
  have u: "update s (fid r) (featureData c rq sc grp (g + 1)) = Inr (s, Some r)"
    using assms(1) r(1) r(4) by (intro update_noop) simp_all
  have "\<forall>j<length rest. \<exists>r\<in>set s. openspec_change_id r = c \<and>
           openspec_task_group r = g + 1 + 1 + int j \<and>
           foldl assign r (featureData c rq sc (rest ! j) (g + 1 + 1 + int j)) = r"
  proof (intro allI impI)
    fix j assume "j < length rest"
    then have "Suc j < length (grp # rest)" by simp
    from Cons.prems [rule_format, OF this]
    show "\<exists>r\<in>set s. openspec_change_id r = c \<and>
           openspec_task_group r = g + 1 + 1 + int j \<and>
           foldl assign r (featureData c rq sc (rest ! j) (g + 1 + 1 + int j)) = r"
      by (simp add: add.commute add.left_commute)
  qed
  from Cons.IH [OF this, of "up @ [fid r]"] show ?case using f u by simp
qed

lemma map_filter_cong_set:
  "\<forall>x\<in>set xs. f x = g x \<Longrightarrow> List.map_filter f xs = List.map_filter g xs"
  by (induction xs) (auto simp: map_filter_simps split: option.splits)

lemma map_filter_total:
  "\<forall>x\<in>set xs. f x \<noteq> None \<Longrightarrow> List.map_filter f xs = map (\<lambda>x. the (f x)) xs"
  by (induction xs) (auto simp: map_filter_simps)

lemma allIds_cong:
  assumes "\<And>j. j < n \<Longrightarrow> map_option fid (findByOpenspecKey s c (int j + 1))
                        = map_option fid (findByOpenspecKey s' c (int j + 1))"
  shows "allIds s c n = allIds s' c n"
  unfolding allIds_def using assms by (intro map_filter_cong_set) simp

lemma allIds_total:
  assumes "\<And>j. j < n \<Longrightarrow> findByOpenspecKey s c (int j + 1) \<noteq> None"
  shows "allIds s c n = map (\<lambda>j. fid (the (findByOpenspecKey s c (int j + 1)))) [0..<n]"
proof -
  have "allIds s c n = map (\<lambda>j. the (map_option fid (findByOpenspecKey s c (int j + 1)))) [0..<n]"
    unfolding allIds_def using assms by (intro map_filter_total) simp
  also have "\<dots> = map (\<lambda>j. fid (the (findByOpenspecKey s c (int j + 1)))) [0..<n]"
    using assms by (intro map_cong refl) (auto simp: option.map_sel)
  finally show ?thesis .
qed

lemma allIds_distinct:
  assumes wf: "wf_store s"
    and tot: "\<And>j. j < n \<Longrightarrow> findByOpenspecKey s c (int j + 1) \<noteq> None"
  shows "distinct (allIds s c n)"
proof -
  have "inj_on (\<lambda>j. fid (the (findByOpenspecKey s c (int j + 1)))) (set [0..<n])"
  proof (rule inj_onI)
    fix j k assume jk: "j \<in> set [0..<n]" "k \<in> set [0..<n]"
      and e: "fid (the (findByOpenspecKey s c (int j + 1))) = fid (the (findByOpenspecKey s c (int k + 1)))"
    from jk tot obtain rj rk where r: "findByOpenspecKey s c (int j + 1) = Some rj"
      "findByOpenspecKey s c (int k + 1) = Some rk" by fastforce
    note a = findByOpenspecKey_Some [OF r(1) wf] and b = findByOpenspecKey_Some [OF r(2) wf]
    from e r have "fid rj = fid rk" by simp
    with wf a(1) b(1) have "rj = rk" by (rule wf_same_id)
    with a(3) b(3) show "j = k" by simp
  qed
  moreover have "allIds s c n = map (\<lambda>j. fid (the (findByOpenspecKey s c (int j + 1)))) [0..<n]"
    using tot by (rule allIds_total)
  ultimately show ?thesis by (simp add: distinct_map)
qed

lemma featureData_deps:
  "foldl assign (r\<lparr>depends_on := d\<rparr>) (featureData c rq sc grp g)
     = (foldl assign r (featureData c rq sc grp g))\<lparr>depends_on := d\<rparr>"
  by (simp add: featureData_def)

text \<open>A row of the store before \<open>wire\<close> and the row with its id afterwards.\<close>

lemma wired_transport:
  assumes w: "wired ids s1 s2" and r1: "r1 \<in> set s1"
  obtains r2 where "r2 \<in> set s2" "getFeature s2 (fid r1) = Some r2"
    "r2 = r1\<lparr>depends_on := depends_on r2\<rparr>"
    "depends_on r2 = depends_on r1 \<or>
     (\<exists>q. q \<notin> set (depends_on r1) \<and> depends_on r2 = depends_on r1 @ [q])"
  using w r1
proof (cases rule: wired_row)
  case 1
  then show ?thesis using that [of r1] by (auto dest: getFeature_Some_mem)
next
  case (2 q)
  then show ?thesis
    using that [of "r1\<lparr>depends_on := depends_on r1 @ [q]\<rparr>"]
    by (auto dest: getFeature_Some_mem)
qed

lemma row_deps_fields:
  assumes "r2 = r1\<lparr>depends_on := d\<rparr>"
  shows "fid r2 = fid r1" "openspec_change_id r2 = openspec_change_id r1"
    "openspec_task_group r2 = openspec_task_group r1" "status r2 = status r1"
    "passes r2 = passes r1"
  using assms by simp_all

lemma import_split:
  assumes "importChange c parsed rq sc s = Inr (s2, res)"
  obtains s1 cr up where
    "upsert c rq sc 0 (taskGroups c parsed) (s, [], []) = Inr (s1, cr, up)"
    "wire s1 (allIds s1 c (length (taskGroups c parsed))) = Inr s2"
    "res = \<lparr>created = cr, updated = up, total = length (taskGroups c parsed)\<rparr>"
  using assms by (auto simp: importChange_def split: sum.splits)

lemma upserted_find:
  assumes U: "upserted c rq sc 0 grps s s1" and c: "c \<noteq> []" and j: "j < length grps"
  obtains r where "findByOpenspecKey s1 c (int j + 1) = Some r" "r \<in> set s1"
    "openspec_change_id r = c" "openspec_task_group r = int j + 1"
    "foldl assign r (featureData c rq sc (grps ! j) (int j + 1)) = r"
proof -
  from U j obtain r where r: "r \<in> set s1" "openspec_change_id r = c"
    "openspec_task_group r = 0 + 1 + int j"
    "foldl assign r (featureData c rq sc (grps ! j) (0 + 1 + int j)) = r"
    by (rule upserted_group)
  have e: "0 + 1 + int j = int j + 1" by simp
  have "findByOpenspecKey s1 c (int j + 1) = Some r"
    using upserted_wf [OF U] c r(1,2) r(3) [unfolded e] by (rule findByOpenspecKey_unique)
  with r show ?thesis using that [of r] unfolding e by simp
qed

lemma import_imported:
  assumes imp: "importChange c parsed rq sc s = Inr (s2, res)"
    and wf: "wf_store s" and c: "c \<noteq> []"
  obtains s1 where "upserted c rq sc 0 (taskGroups c parsed) s s1"
    "wired (tl (allIds s1 c (length (taskGroups c parsed)))) s1 s2"
    "allIds s2 c (length (taskGroups c parsed)) = allIds s1 c (length (taskGroups c parsed))"
    "imported c rq sc (taskGroups c parsed) s2"
proof -
  let ?grps = "taskGroups c parsed"
  let ?n = "length ?grps"
  from imp obtain s1 cr up where
    up: "upsert c rq sc 0 ?grps (s, [], []) = Inr (s1, cr, up)"
    and wi: "wire s1 (allIds s1 c ?n) = Inr s2"
    by (rule import_split)
  have U: "upserted c rq sc 0 ?grps s s1" using up wf by (rule upsert_upserted)
  have wf1: "wf_store s1" using U by (rule upserted_wf)
  have tot: "\<And>j. j < ?n \<Longrightarrow> findByOpenspecKey s1 c (int j + 1) \<noteq> None"
  proof -
    fix j assume "j < ?n"
    with U c obtain r where "findByOpenspecKey s1 c (int j + 1) = Some r"
      by (rule upserted_find)
    then show "findByOpenspecKey s1 c (int j + 1) \<noteq> None" by simp
  qed
  have d: "distinct (allIds s1 c ?n)" using wf1 tot by (rule allIds_distinct)
  have W: "wired (tl (allIds s1 c ?n)) s1 s2" using wi wf1 d by (rule wire_wired)
  have wf2: "wf_store s2" using W by (rule wired_wf)
  have ch: "chained s2 (allIds s1 c ?n)" using wi wf1 d by (rule wire_chained)
  have row2: "\<exists>r2\<in>set s2. openspec_change_id r2 = c \<and> openspec_task_group r2 = int j + 1 \<and>
        foldl assign r2 (featureData c rq sc (?grps ! j) (int j + 1)) = r2 \<and>
        map_option fid (findByOpenspecKey s1 c (int j + 1)) = Some (fid r2)"
    if j: "j < ?n" for j
  proof -
    from U c j obtain r1 where r1: "findByOpenspecKey s1 c (int j + 1) = Some r1" "r1 \<in> set s1"
      "openspec_change_id r1 = c" "openspec_task_group r1 = int j + 1"
      "foldl assign r1 (featureData c rq sc (?grps ! j) (int j + 1)) = r1"
      by (rule upserted_find)
    from W r1(2) obtain r2 where r2: "r2 \<in> set s2" "getFeature s2 (fid r1) = Some r2"
      "r2 = r1\<lparr>depends_on := depends_on r2\<rparr>"
      by (rule wired_transport)
    note f = row_deps_fields [OF r2(3)]
    have "foldl assign r2 (featureData c rq sc (?grps ! j) (int j + 1)) = r2"
      using featureData_deps [where r = r1 and d = "depends_on r2" and c = c and rq = rq
          and sc = sc and grp = "?grps ! j" and g = "int j + 1"]
      unfolding r1(5) r2(3) [symmetric] .
    with r2(1) f r1 show ?thesis by (intro bexI [of _ r2]) simp_all
  qed
  have ids: "allIds s2 c ?n = allIds s1 c ?n"
  proof (rule allIds_cong)
    fix j assume "j < ?n"
    from row2 [OF this] obtain r2 where r2: "r2 \<in> set s2" "openspec_change_id r2 = c"
      "openspec_task_group r2 = int j + 1"
      "map_option fid (findByOpenspecKey s1 c (int j + 1)) = Some (fid r2)" by blast
    have "findByOpenspecKey s2 c (int j + 1) = Some r2"
      using wf2 c r2(1-3) by (rule findByOpenspecKey_unique)
    then have "map_option fid (findByOpenspecKey s2 c (int j + 1)) = Some (fid r2)" by simp
    with r2(4) show "map_option fid (findByOpenspecKey s2 c (int j + 1))
                       = map_option fid (findByOpenspecKey s1 c (int j + 1))"
      by (simp only:)
  qed
  have "imported c rq sc ?grps s2"
    unfolding imported_def
  proof (intro conjI allI impI)
    show "wf_store s2" by fact
    show "chained s2 (allIds s2 c ?n)" using ch ids by simp
  next
    fix j assume "j < ?n"
    from row2 [OF this]
    show "\<exists>r\<in>set s2. openspec_change_id r = c \<and> openspec_task_group r = 0 + 1 + int j \<and>
        foldl assign r (featureData c rq sc (?grps ! j) (0 + 1 + int j)) = r"
      by (simp add: add.commute) blast
  qed
  with U W ids show ?thesis by (rule that)
qed

lemma imported_stable:
  assumes "imported c rq sc (taskGroups c parsed) s" and c: "c \<noteq> []"
  shows "\<exists>up. importChange c parsed rq sc s
           = Inr (s, \<lparr>created = [], updated = up, total = length (taskGroups c parsed)\<rparr>)"
proof -
  let ?grps = "taskGroups c parsed"
  from assms(1) have wf: "wf_store s"
    and rows: "\<forall>j<length ?grps. \<exists>r\<in>set s. openspec_change_id r = c \<and>
        openspec_task_group r = 0 + 1 + int j \<and>
        foldl assign r (featureData c rq sc (?grps ! j) (0 + 1 + int j)) = r"
    and ch: "chained s (allIds s c (length ?grps))"
    by (simp_all add: imported_def)
  from upsert_stable [OF wf c rows, of "[]" "[]"] obtain up where
    "upsert c rq sc 0 ?grps (s, [], []) = Inr (s, [], up)" by blast
  moreover have "wire s (allIds s c (length ?grps)) = Inr s" using ch by (rule wire_noop)
  ultimately show ?thesis by (simp add: importChange_def)
qed

lemma length_taskGroups: "length (taskGroups c parsed) = max 1 (length parsed)"
  by (cases parsed) (simp_all add: taskGroups_def)

lemma import_row_origin:
  assumes U: "upserted c rq sc 0 grps s s1" and W: "wired ids s1 s2" and r2: "r2 \<in> set s2"
  shows "(\<exists>r\<in>set s. fid r = fid r2 \<and> openspec_change_id r = openspec_change_id r2 \<and>
            openspec_task_group r = openspec_task_group r2) \<or>
         (openspec_change_id r2 = c \<and> 0 < openspec_task_group r2 \<and>
          openspec_task_group r2 \<le> int (length grps))"
proof -
  have wf1: "wf_store s1" using U by (rule upserted_wf)
  have wf2: "wf_store s2" using W by (rule wired_wf)
  have "fid r2 \<in> fid ` set s1" using wired_ids [OF W] r2 by (metis imageI set_map)
  then obtain r1 where r1: "r1 \<in> set s1" "fid r1 = fid r2" by auto
  from W r1(1) obtain r2' where r2': "r2' \<in> set s2" "getFeature s2 (fid r1) = Some r2'"
    "r2' = r1\<lparr>depends_on := depends_on r2'\<rparr>" by (rule wired_transport)
  have "fid r2' = fid r2" using r2'(2) r1(2) by (auto dest: getFeature_Some_mem)
  with wf2 r2'(1) r2 have e2: "r2' = r2" by (rule wf_same_id)
  note k1 = row_deps_fields(2,3) [OF r2'(3), unfolded e2]
  from upserted_rows [OF U r1(1)] show ?thesis
  proof
    assume "fid r1 \<in> fid ` set s"
    then obtain r where r: "r \<in> set s" "fid r = fid r1" by auto
    from U r(1) have "openspec_change_id r = openspec_change_id r1 \<and>
        openspec_task_group r = openspec_task_group r1"
    proof (cases rule: upserted_old)
      case (1 r')
      have m: "r' \<in> set s1" "fid r' = fid r" using 1(1) by (auto dest: getFeature_Some_mem)
      have "fid r' = fid r1" using m(2) r(2) by (rule trans)
      with wf1 m(1) r1(1) have "r' = r1" by (rule wf_same_id)
      then show ?thesis using 1(2) by (simp only:)
    next
      case (2 r' j)
      have m: "r' \<in> set s1" "fid r' = fid r" using 2(1) by (auto dest: getFeature_Some_mem)
      have "fid r' = fid r1" using m(2) r(2) by (rule trans)
      with wf1 m(1) r1(1) have "r' = r1" by (rule wf_same_id)
      then have "r1 = foldl assign r (featureData c rq sc (grps ! j) (0 + 1 + int j))"
        using 2(5) by (simp only:)
      then have "openspec_change_id r1 = c" "openspec_task_group r1 = 0 + 1 + int j"
        by (simp_all only: featureData_key)
      then show ?thesis using 2(2,4) by (simp only:)
    qed
    then show ?thesis using r r1(2) k1 by auto
  next
    assume "openspec_change_id r1 = c \<and> 0 < openspec_task_group r1 \<and>
      openspec_task_group r1 \<le> 0 + int (length grps)"
    then show ?thesis using k1 by simp
  qed
qed

lemma count_by_groups:
  assumes wf: "wf_store s" and c: "c \<noteq> []"
    and g: "openspec_task_group ` {r \<in> set s. openspec_change_id r = c \<and> Q r} = {1..int n}"
  shows "length (filter (\<lambda>r. openspec_change_id r = c \<and> Q r) s) = n"
proof -
  let ?rows = "filter (\<lambda>r. openspec_change_id r = c \<and> Q r) s"
  have "distinct s" using wf by (simp add: wf_store_iff distinct_map)
  then have d: "distinct ?rows" by simp
  have "inj_on openspec_task_group (set ?rows)"
  proof (rule inj_onI)
    fix x y assume x: "x \<in> set ?rows" and y: "y \<in> set ?rows"
      and e: "openspec_task_group x = openspec_task_group y"
    have "fid y = fid x"
      using wf_store_unique [OF wf, of x y] x y e c by simp
    then show "x = y" using wf x y by (intro wf_same_id [of s]) simp_all
  qed
  with d have "distinct (map openspec_task_group ?rows)" by (simp add: distinct_map)
  then have "length (map openspec_task_group ?rows) = card (set (map openspec_task_group ?rows))"
    by (rule distinct_card [symmetric])
  also have "set (map openspec_task_group ?rows)
               = openspec_task_group ` {r \<in> set s. openspec_change_id r = c \<and> Q r}" by auto
  also have "card \<dots> = n" unfolding g by simp
  finally show ?thesis by simp
qed

text \<open>
  C6, amended. Let the change name be non-empty, let the artifacts parse into \<open>k\<close> task
  groups and put \<open>k' = max 1 k\<close> (a change without task groups is imported as one group).
  If the store satisfies the constraints of the schema and \<open>importChange\<close> returns, then
  the store holds exactly \<open>k'\<close> features of the change with a task group in \<open>1, ..., k'\<close>,
  one for each of these values; if the store held no feature of the change with a task
  group outside \<open>1, ..., k'\<close> before, these are all the features of the change; and, with
  or without such features, a second import right after creates no feature and returns
  the same store.
\<close>

theorem import_exact_and_idempotent:
  assumes wf: "wf_store s" and c: "c \<noteq> []"
    and imp: "importChange c parsed rq sc s = Inr (s', res)"
  shows "length (filter (\<lambda>r. openspec_change_id r = c \<and>
                    openspec_task_group r \<in> {1..int (max 1 (length parsed))}) s')
           = max 1 (length parsed)
       \<and> openspec_task_group ` {r \<in> set s'. openspec_change_id r = c \<and>
                    openspec_task_group r \<in> {1..int (max 1 (length parsed))}}
           = {1..int (max 1 (length parsed))}
       \<and> ((\<forall>r\<in>set s. openspec_change_id r = c \<longrightarrow>
              1 \<le> openspec_task_group r \<and>
              openspec_task_group r \<le> int (max 1 (length parsed))) \<longrightarrow>
            length (filter (\<lambda>r. openspec_change_id r = c) s') = max 1 (length parsed) \<and>
            openspec_task_group ` {r \<in> set s'. openspec_change_id r = c}
              = {1..int (max 1 (length parsed))})
       \<and> (\<exists>up. importChange c parsed rq sc s'
                  = Inr (s', \<lparr>created = [], updated = up, total = max 1 (length parsed)\<rparr>))"
proof -
  let ?grps = "taskGroups c parsed"
  let ?n = "length ?grps"
  have n: "?n = max 1 (length parsed)" by (rule length_taskGroups)
  from imp wf c obtain s1 where U: "upserted c rq sc 0 ?grps s s1"
    and W: "wired (tl (allIds s1 c ?n)) s1 s'"
    and I: "imported c rq sc ?grps s'"
    by (rule import_imported)
  have wf': "wf_store s'" using W by (rule wired_wf)
  have present: "g \<in> openspec_task_group ` {r \<in> set s'. openspec_change_id r = c}"
    if g: "g \<in> {1..int ?n}" for g
  proof -
    define j where "j = nat (g - 1)"
    have j: "j < ?n" "0 + 1 + int j = g" using g by (auto simp: j_def)
    from I j(1) obtain r where "r \<in> set s'" "openspec_change_id r = c"
      "openspec_task_group r = 0 + 1 + int j"
      unfolding imported_def by blast
    then show ?thesis unfolding j(2) by (intro image_eqI [of _ _ r]) simp_all
  qed
  have inA: "openspec_task_group ` {r \<in> set s'. openspec_change_id r = c \<and>
                openspec_task_group r \<in> {1..int ?n}} = {1..int ?n}"
  proof (intro equalityI subsetI)
    fix g assume "g \<in> openspec_task_group ` {r \<in> set s'. openspec_change_id r = c \<and>
                openspec_task_group r \<in> {1..int ?n}}"
    then show "g \<in> {1..int ?n}" by blast
  next
    fix g assume g: "g \<in> {1..int ?n}"
    from present [OF g] obtain r where "r \<in> set s'" "openspec_change_id r = c"
      "g = openspec_task_group r" by blast
    with g show "g \<in> openspec_task_group ` {r \<in> set s'. openspec_change_id r = c \<and>
                openspec_task_group r \<in> {1..int ?n}}" by blast
  qed
  have countA: "length (filter (\<lambda>r. openspec_change_id r = c \<and>
                  openspec_task_group r \<in> {1..int ?n}) s') = ?n"
    using wf' c inA by (rule count_by_groups)
  have B: "length (filter (\<lambda>r. openspec_change_id r = c) s') = ?n \<and>
           openspec_task_group ` {r \<in> set s'. openspec_change_id r = c} = {1..int ?n}"
    if fresh: "\<forall>r\<in>set s. openspec_change_id r = c \<longrightarrow>
                 1 \<le> openspec_task_group r \<and> openspec_task_group r \<le> int ?n"
  proof -
    have groups: "openspec_task_group ` {r \<in> set s'. openspec_change_id r = c} = {1..int ?n}"
    proof (intro equalityI subsetI)
      fix g assume "g \<in> openspec_task_group ` {r \<in> set s'. openspec_change_id r = c}"
      then obtain r2 where r2: "r2 \<in> set s'" "openspec_change_id r2 = c"
        "g = openspec_task_group r2" by auto
      from import_row_origin [OF U W r2(1)] show "g \<in> {1..int ?n}"
      proof
        assume "\<exists>r\<in>set s. fid r = fid r2 \<and> openspec_change_id r = openspec_change_id r2 \<and>
              openspec_task_group r = openspec_task_group r2"
        then obtain r where "r \<in> set s" "openspec_change_id r = c"
          "openspec_task_group r = g" using r2(2,3) by auto
        with fresh show ?thesis by auto
      next
        assume "openspec_change_id r2 = c \<and> 0 < openspec_task_group r2 \<and>
            openspec_task_group r2 \<le> int ?n"
        then show ?thesis using r2(3) by simp
      qed
    next
      fix g assume "g \<in> {1..int ?n}"
      then show "g \<in> openspec_task_group ` {r \<in> set s'. openspec_change_id r = c}"
        by (rule present)
    qed
    then have "openspec_task_group ` {r \<in> set s'. openspec_change_id r = c \<and> True}
                 = {1..int ?n}" by simp
    with wf' c have "length (filter (\<lambda>r. openspec_change_id r = c \<and> True) s') = ?n"
      by (rule count_by_groups)
    with groups show ?thesis by simp
  qed
  from imported_stable [OF I c]
  have C: "\<exists>up. importChange c parsed rq sc s'
                  = Inr (s', \<lparr>created = [], updated = up, total = ?n\<rparr>)" .
  from countA inA B C show ?thesis unfolding n by blast
qed

lemma taskGroups_nth: "j < length parsed \<Longrightarrow> taskGroups c parsed ! j = parsed ! j"
  by (auto simp: taskGroups_def)

text \<open>
  C7. When \<open>importChange\<close> finds a feature \<open>old\<close> under the key of task group \<open>j + 1\<close> of the
  change and returns, the row with the id of \<open>old\<close> is \<open>old\<close> with the content fields
  \<open>category\<close>, \<open>description\<close>, \<open>openspec_reference\<close>, \<open>requirements\<close>, \<open>verification_steps\<close> and
  \<open>notes\<close> refreshed and nothing else changed but \<open>depends_on\<close>, in which every entry of
  \<open>old\<close> is still present; in particular \<open>id\<close>, \<open>status\<close> and \<open>passes\<close> are those of \<open>old\<close>.
\<close>

theorem reimport_preserves_state:
  assumes wf: "wf_store s" and c: "c \<noteq> []"
    and j: "j < length (taskGroups c parsed)"
    and old: "findByOpenspecKey s c (int j + 1) = Some old"
    and imp: "importChange c parsed rq sc s = Inr (s', res)"
  shows "\<exists>new. getFeature s' (fid old) = Some new \<and>
           fid new = fid old \<and> status new = status old \<and> passes new = passes old \<and>
           set (depends_on old) \<subseteq> set (depends_on new) \<and>
           new = old\<lparr>category := c,
                     description := title (taskGroups c parsed ! j),
                     openspec_reference := ''openspec/changes/'' @ c,
                     requirements := (if rq \<noteq> [] then rq else steps (taskGroups c parsed ! j)),
                     verification_steps :=
                       (if sc \<noteq> [] then map (\<lambda>x. x @ '' verified'') sc
                        else map (\<lambda>x. x @ '' works correctly'') (steps (taskGroups c parsed ! j))),
                     notes_col := ''Imported from OpenSpec change: '' @ c,
                     depends_on := depends_on new\<rparr>"
proof -
  let ?grps = "taskGroups c parsed"
  let ?fd = "featureData c rq sc (?grps ! j) (int j + 1)"
  note o = findByOpenspecKey_Some [OF old wf]
  from imp wf c obtain s1 where U: "upserted c rq sc 0 ?grps s s1"
    and W: "wired (tl (allIds s1 c (length ?grps))) s1 s'"
    by (rule import_imported)
  have wf1: "wf_store s1" using U by (rule upserted_wf)
  from U c j obtain r where r: "r \<in> set s1" "openspec_change_id r = c"
    "openspec_task_group r = int j + 1" "foldl assign r ?fd = r"
    by (rule upserted_find)
  text \<open>The row of \<open>old\<close> after the first loop is the refreshed row.\<close>
  obtain r1 where r1: "getFeature s1 (fid old) = Some r1" "r1 = foldl assign old ?fd"
  proof -
    from U o(1) show ?thesis
    proof (cases rule: upserted_old)
      case (1 r')
      have "r' \<in> set s1" using 1(1) by (auto dest: getFeature_Some_mem)
      moreover have "openspec_change_id r' = c" "openspec_task_group r' = int j + 1"
        using 1(2) o(2,3) by simp_all
      ultimately have "fid r = fid r'"
        using wf_store_unique [OF wf1, of r' r] r(1-3) c by simp
      with wf1 r(1) \<open>r' \<in> set s1\<close> have "r = r'" by (rule wf_same_id)
      with r(4) 1(2) have "foldl assign old ?fd = old" by simp
      with 1 that [of old] show ?thesis by simp
    next
      case (2 r' k)
      from 2(4) o(3) have "int k = int j" by simp
      then have "k = j" by simp
      with 2(1,5) that [of r'] show ?thesis by (simp add: add.commute)
    qed
  qed
  have m1: "r1 \<in> set s1" "fid r1 = fid old" using r1(1) by (auto dest: getFeature_Some_mem)
  from W m1(1) obtain new where new: "getFeature s' (fid r1) = Some new"
    "new = r1\<lparr>depends_on := depends_on new\<rparr>"
    "depends_on new = depends_on r1 \<or>
     (\<exists>q. q \<notin> set (depends_on r1) \<and> depends_on new = depends_on r1 @ [q])"
    by (rule wired_transport)
  have d1: "depends_on r1 = depends_on old" unfolding r1(2) by simp
  have sub: "set (depends_on old) \<subseteq> set (depends_on new)" using new(3) d1 by auto
  have eq: "new = (foldl assign old ?fd)\<lparr>depends_on := depends_on new\<rparr>"
    using new(2) unfolding r1(2) [symmetric] .
  have f: "fid new = fid old" "status new = status old" "passes new = passes old"
    using row_deps_fields(1,4,5) [OF eq] by simp_all
  have "foldl assign old ?fd
          = old\<lparr>category := c,
                     description := title (?grps ! j),
                     openspec_reference := ''openspec/changes/'' @ c,
                     requirements := (if rq \<noteq> [] then rq else steps (?grps ! j)),
                     verification_steps :=
                       (if sc \<noteq> [] then map (\<lambda>x. x @ '' verified'') sc
                        else map (\<lambda>x. x @ '' works correctly'') (steps (?grps ! j))),
                     notes_col := ''Imported from OpenSpec change: '' @ c\<rparr>"
    using o(2,3) by (simp add: featureData_def)
  with eq have "new = old\<lparr>category := c,
                     description := title (?grps ! j),
                     openspec_reference := ''openspec/changes/'' @ c,
                     requirements := (if rq \<noteq> [] then rq else steps (?grps ! j)),
                     verification_steps :=
                       (if sc \<noteq> [] then map (\<lambda>x. x @ '' verified'') sc
                        else map (\<lambda>x. x @ '' works correctly'') (steps (?grps ! j))),
                     notes_col := ''Imported from OpenSpec change: '' @ c,
                     depends_on := depends_on new\<rparr>"
    by simp
  with new(1) m1(2) f sub show ?thesis by (intro exI [of _ new]) simp
qed

text \<open>
  C8. After \<open>importChange\<close> has returned, for every \<open>g\<close> from \<open>2\<close> to the number of task
  groups the feature under the key \<open>g\<close> has the id of the feature under the key \<open>g - 1\<close> in
  its \<open>depends_on\<close>; and the \<open>depends_on\<close> of every feature that was in the store before is
  either unchanged or extended by one id that was not in it: the import adds no duplicate
  and removes no entry.
\<close>

theorem import_wires_predecessor:
  assumes wf: "wf_store s" and c: "c \<noteq> []"
    and imp: "importChange c parsed rq sc s = Inr (s', res)"
  shows "(\<forall>g. 2 \<le> g \<and> g \<le> int (length parsed) \<longrightarrow>
            (\<exists>p r. findByOpenspecKey s' c (g - 1) = Some p \<and>
                   findByOpenspecKey s' c g = Some r \<and> fid p \<in> set (depends_on r)))
       \<and> (\<forall>old\<in>set s. \<exists>new. getFeature s' (fid old) = Some new \<and>
            (depends_on new = depends_on old \<or>
             (\<exists>q. q \<notin> set (depends_on old) \<and> depends_on new = depends_on old @ [q])))"
proof (intro conjI allI impI ballI)
  let ?grps = "taskGroups c parsed"
  let ?n = "length ?grps"
  from imp wf c obtain s1 where U: "upserted c rq sc 0 ?grps s s1"
    and W: "wired (tl (allIds s1 c ?n)) s1 s'"
    and I: "imported c rq sc ?grps s'"
    by (rule import_imported)
  have wf': "wf_store s'" using W by (rule wired_wf)
  have rows: "\<exists>r. findByOpenspecKey s' c (int j + 1) = Some r" if "j < ?n" for j
  proof -
    from I that obtain r where "r \<in> set s'" "openspec_change_id r = c"
      "openspec_task_group r = 0 + 1 + int j" unfolding imported_def by blast
    then have "findByOpenspecKey s' c (int j + 1) = Some r"
      using wf' c by (intro findByOpenspecKey_unique) (simp_all add: add.commute)
    then show ?thesis by blast
  qed
  have ids: "allIds s' c ?n = map (\<lambda>j. fid (the (findByOpenspecKey s' c (int j + 1)))) [0..<?n]"
    using rows by (intro allIds_total) auto
  have ch: "chained s' (allIds s' c ?n)" using I by (simp add: imported_def)
  {
    fix g :: int assume g: "2 \<le> g \<and> g \<le> int (length parsed)"
    define k where "k = nat (g - 2)"
    have n: "?n = max 1 (length parsed)" by (rule length_taskGroups)
    have k: "Suc k < ?n" "int k + 1 = g - 1" "int (Suc k) + 1 = g"
      using g unfolding n by (auto simp: k_def)
    from rows [of k] rows [of "Suc k"] k(1) obtain p r where
      p: "findByOpenspecKey s' c (int k + 1) = Some p"
      and r: "findByOpenspecKey s' c (int (Suc k) + 1) = Some r" by auto
    have rm: "r \<in> set s'" using findByOpenspecKey_Some(1) [OF r wf'] .
    have "allIds s' c ?n ! k = fid p" "allIds s' c ?n ! Suc k = fid r"
      using k(1) p r unfolding ids by simp_all
    moreover have "getFeature s' (fid r) = Some r" using wf' rm by (rule wf_get_mem)
    moreover have "Suc k < length (allIds s' c ?n)" using k(1) unfolding ids by simp
    ultimately have "fid p \<in> set (depends_on r)"
      using ch unfolding chained_def by metis
    with p r show "\<exists>p r. findByOpenspecKey s' c (g - 1) = Some p \<and>
                   findByOpenspecKey s' c g = Some r \<and> fid p \<in> set (depends_on r)"
      unfolding k(2,3) by blast
  next
    fix old assume old: "old \<in> set s"
    from U old obtain r1 where r1: "getFeature s1 (fid old) = Some r1"
      "depends_on r1 = depends_on old"
      by (cases rule: upserted_old) simp_all
    have m1: "r1 \<in> set s1" "fid r1 = fid old" using r1(1) by (auto dest: getFeature_Some_mem)
    from W m1(1) obtain new where "getFeature s' (fid r1) = Some new"
      "depends_on new = depends_on r1 \<or>
       (\<exists>q. q \<notin> set (depends_on r1) \<and> depends_on new = depends_on r1 @ [q])"
      by (rule wired_transport)
    then show "\<exists>new. getFeature s' (fid old) = Some new \<and>
            (depends_on new = depends_on old \<or>
             (\<exists>q. q \<notin> set (depends_on old) \<and> depends_on new = depends_on old @ [q]))"
      unfolding m1(2) r1(2) by blast
  }
qed

lemma import_auth_fresh:
  "importChange ''auth'' auth_groups [] [] []
     = Inr (auth_store, \<lparr>created = [''FEAT-001'', ''FEAT-002''], updated = [], total = 2\<rparr>)"
  by code_simp

lemma wf_auth_store: "wf_store auth_store"
  by code_simp

text \<open>
  C6, as stated, fails on the code. A change whose artifacts parse into no task group is
  imported as one feature, not as none; and when the store already holds two features of
  the change and the artifacts now parse into one task group, both features remain.
\<close>

theorem import_count_counterexample:
  "length ([] :: task_group list) = 0
   \<and> importChange ''auth'' [] [] [] []
       = Inr ([foldl assign (row ''FEAT-001'' ''pending'' [] False)
                 (featureData ''auth'' [] [] \<lparr>title = ''auth'', steps = []\<rparr> 1)],
              \<lparr>created = [''FEAT-001''], updated = [], total = 1\<rparr>)
   \<and> length (filter (\<lambda>r. openspec_change_id r = ''auth'')
        [foldl assign (row ''FEAT-001'' ''pending'' [] False)
           (featureData ''auth'' [] [] \<lparr>title = ''auth'', steps = []\<rparr> 1)]) = 1
   \<and> length [hd auth_groups] = 1
   \<and> importChange ''auth'' [hd auth_groups] [] [] auth_store
       = Inr (auth_store, \<lparr>created = [], updated = [''FEAT-001''], total = 1\<rparr>)
   \<and> length (filter (\<lambda>r. openspec_change_id r = ''auth'') auth_store) = 2"
  by code_simp

theorem import_exact_and_idempotent_witness:
  "length (filter (\<lambda>r. openspec_change_id r = ''auth'') auth_store) = 2
   \<and> (\<exists>up. importChange ''auth'' auth_groups [] [] auth_store
              = Inr (auth_store, \<lparr>created = [], updated = up, total = 2\<rparr>))
   \<and> (\<exists>up. importChange ''auth'' [hd auth_groups] [] [] auth_store
              = Inr (auth_store, \<lparr>created = [], updated = up, total = 1\<rparr>))"
proof -
  have stale: "importChange ''auth'' [hd auth_groups] [] [] auth_store
                 = Inr (auth_store, \<lparr>created = [], updated = [''FEAT-001''], total = 1\<rparr>)"
    by code_simp
  have m: "max 1 (length [hd auth_groups]) = 1" by simp
  have h1: "wf_store []" by (simp add: wf_store_def)
  have h2: "''auth'' \<noteq> []" by simp
  have h3: "\<forall>r\<in>set ([] :: store). openspec_change_id r = ''auth'' \<longrightarrow>
              1 \<le> openspec_task_group r \<and>
              openspec_task_group r \<le> int (max 1 (length auth_groups))" by simp
  have n: "max 1 (length auth_groups) = 2" by (simp add: auth_groups_def)
  have "\<exists>up. importChange ''auth'' [hd auth_groups] [] [] auth_store
              = Inr (auth_store, \<lparr>created = [], updated = up, total = 1\<rparr>)"
    using import_exact_and_idempotent [OF wf_auth_store h2 stale] unfolding m by blast
  with import_exact_and_idempotent [OF h1 h2 import_auth_fresh] h3 show ?thesis
    unfolding n by blast
qed

lemma reimport_auth_requirements:
  "importChange ''auth'' auth_groups [''Users can sign in''] [] auth_store
     = Inr (map (\<lambda>r. r\<lparr>requirements := [''Users can sign in'']\<rparr>) auth_store,
            \<lparr>created = [], updated = [''FEAT-001'', ''FEAT-002''], total = 2\<rparr>)"
  by code_simp

theorem reimport_preserves_state_witness:
  "\<exists>new. getFeature (map (\<lambda>r. r\<lparr>requirements := [''Users can sign in'']\<rparr>) auth_store)
            ''FEAT-002'' = Some new
         \<and> status new = ''pending'' \<and> passes new = False
         \<and> set [''FEAT-001''] \<subseteq> set (depends_on new)
         \<and> requirements new = [''Users can sign in'']"
proof -
  let ?old = "foldl assign (row ''FEAT-002'' ''pending'' [''FEAT-001''] False)
                (featureData ''auth'' [] [] (auth_groups ! 1) 2)"
  have h2: "''auth'' \<noteq> []" by simp
  have h3: "1 < length (taskGroups ''auth'' auth_groups)"
    by (simp add: taskGroups_def auth_groups_def)
  have h4: "findByOpenspecKey auth_store ''auth'' (int 1 + 1) = Some ?old"
    by code_simp
  from reimport_preserves_state [OF wf_auth_store h2 h3 h4 reimport_auth_requirements]
  obtain new where n: "getFeature (map (\<lambda>r. r\<lparr>requirements := [''Users can sign in'']\<rparr>)
                         auth_store) (fid ?old) = Some new"
    "status new = status ?old" "passes new = passes ?old"
    "set (depends_on ?old) \<subseteq> set (depends_on new)"
    "new = ?old\<lparr>category := ''auth'',
            description := title (taskGroups ''auth'' auth_groups ! 1),
            openspec_reference := ''openspec/changes/'' @ ''auth'',
            requirements := (if [''Users can sign in''] \<noteq> [] then [''Users can sign in'']
                             else steps (taskGroups ''auth'' auth_groups ! 1)),
            verification_steps :=
              (if ([] :: string list) \<noteq> [] then map (\<lambda>x. x @ '' verified'') []
               else map (\<lambda>x. x @ '' works correctly'')
                      (steps (taskGroups ''auth'' auth_groups ! 1))),
            notes_col := ''Imported from OpenSpec change: '' @ ''auth'',
            depends_on := depends_on new\<rparr>"
    by blast
  have "requirements new = [''Users can sign in'']"
    by (subst n(5)) simp
  with n(1-4) show ?thesis
    by (intro exI [of _ new]) (simp add: row_def featureData_def)
qed

theorem import_wires_predecessor_witness:
  "\<exists>p r. findByOpenspecKey auth_store ''auth'' (2 - 1) = Some p \<and>
         findByOpenspecKey auth_store ''auth'' 2 = Some r \<and> fid p \<in> set (depends_on r)"
proof -
  have h1: "wf_store []" by (simp add: wf_store_def)
  have h2: "''auth'' \<noteq> []" by simp
  have g: "2 \<le> (2::int) \<and> 2 \<le> int (length auth_groups)" by (simp add: auth_groups_def)
  from import_wires_predecessor [OF h1 h2 import_auth_fresh] g show ?thesis by blast
qed

section \<open>Properties of \<open>resolveOrder\<close>\<close>

lemma visit_Suc:
  "visit (Suc n) m i st =
    (if i \<in> visited st then Some (Inr st)
     else if i \<in> visiting st then Some (Inl (CircularDependency i))
     else
       (case visit_each n m (dep_ids m i) (st\<lparr>visiting := insert i (visiting st)\<rparr>) of
          None \<Rightarrow> None
        | Some (Inl e) \<Rightarrow> Some (Inl e)
        | Some (Inr st') \<Rightarrow>
            Some (Inr (st'\<lparr>visiting := visiting st' - {i},
                           visited := insert i (visited st'),
                           sorted := (case m i of None \<Rightarrow> sorted st'
                                      | Some f \<Rightarrow> sorted st' @ [f])\<rparr>))))"
  by (simp add: dep_ids_def)

text \<open>A successful visit leaves \<open>visiting\<close> as it found it.\<close>

lemma visiting_restored:
  "visit n m i st = Some (Inr st') \<Longrightarrow> visiting st' = visiting st"
  "visit_each n m ds st = Some (Inr st') \<Longrightarrow> visiting st' = visiting st"
proof (induction n m i st and n m ds st arbitrary: st' and st' rule: visit_visit_each.induct)
  case (1 m i st)
  then show ?case by simp
next
  case (2 n m i st)
  show ?case
  proof (cases "i \<in> visited st \<or> i \<in> visiting st")
    case True
    with "2.prems" show ?thesis by (auto split: if_splits)
  next
    case False
    with "2.prems" obtain st2 where
      e: "visit_each n m (case m i of None \<Rightarrow> [] | Some f \<Rightarrow> depends_on f)
            (st\<lparr>visiting := insert i (visiting st)\<rparr>) = Some (Inr st2)"
      and s: "visiting st' = visiting st2 - {i}"
      by (auto split: option.splits sum.splits)
    from "2.IH" [OF _ _ e] False have "visiting st2 = insert i (visiting st)" by simp
    with s False show ?thesis by auto
  qed
next
  case (3 n m st)
  then show ?case by simp
next
  case (4 n m d ds st)
  from "4.prems" obtain st1 where v: "visit n m d st = Some (Inr st1)"
    and e: "visit_each n m ds st1 = Some (Inr st')"
    by (auto split: option.splits sum.splits)
  from "4.IH"(1) [OF v] "4.IH"(2) [OF v refl e] show ?case by simp
qed

text \<open>With more fuel than there are ids outside \<open>visiting\<close>, the fuel does not run out.\<close>

lemma visit_enough_fuel:
  assumes "finite U"
  shows "\<forall>i\<in>U. set (dep_ids m i) \<subseteq> U \<Longrightarrow> i \<in> U \<Longrightarrow>
           card (U - visiting st) < n \<Longrightarrow> visit n m i st \<noteq> None"
    and "\<forall>i\<in>U. set (dep_ids m i) \<subseteq> U \<Longrightarrow> set ds \<subseteq> U \<Longrightarrow>
           card (U - visiting st) < n \<Longrightarrow> visit_each n m ds st \<noteq> None"
proof (induction n m i st and n m ds st rule: visit_visit_each.induct)
  case (1 m i st)
  then show ?case by simp
next
  case (2 n m i st)
  show ?case
  proof (cases "i \<in> visited st \<or> i \<in> visiting st")
    case True
    then show ?thesis by auto
  next
    case False
    let ?st1 = "st\<lparr>visiting := insert i (visiting st)\<rparr>"
    have "i \<in> U - visiting st" using "2.prems"(2) False by simp
    then have "card (U - insert i (visiting st)) < card (U - visiting st)"
      using assms(1) by (intro psubset_card_mono) auto
    then have c: "card (U - visiting ?st1) < n" using "2.prems"(3) by simp
    have d: "set (case m i of None \<Rightarrow> [] | Some f \<Rightarrow> depends_on f) \<subseteq> U"
      using "2.prems"(1) [rule_format, OF "2.prems"(2)] unfolding dep_ids_def .
    from "2.IH" [OF _ _ "2.prems"(1) d c] False
    have "visit_each n m (case m i of None \<Rightarrow> [] | Some f \<Rightarrow> depends_on f) ?st1 \<noteq> None"
      by simp
    with False show ?thesis by (auto split: option.splits sum.splits)
  qed
next
  case (3 n m st)
  then show ?case by simp
next
  case (4 n m d ds st)
  have v: "visit n m d st \<noteq> None" using "4.IH"(1) "4.prems" by simp
  show ?case
  proof (cases "visit n m d st")
    case None
    with v show ?thesis by simp
  next
    case (Some x)
    show ?thesis
    proof (cases x)
      case (Inl e)
      with Some show ?thesis by simp
    next
      case (Inr st1)
      have "visiting st1 = visiting st" using Some Inr by (simp add: visiting_restored(1))
      with "4.IH"(2) [OF Some Inr "4.prems"(1)] "4.prems"(2,3)
      have "visit_each n m ds st1 \<noteq> None" by simp
      with Some Inr show ?thesis by simp
    qed
  qed
qed

text \<open>An exception names an id that lies on a cycle.\<close>

lemma visit_error_on_cycle:
  "visit n m i st = Some (Inl e) \<Longrightarrow> \<forall>g\<in>visiting st. (g, i) \<in> (edges m)\<^sup>+ \<Longrightarrow>
     \<exists>j. e = CircularDependency j \<and> (j, j) \<in> (edges m)\<^sup>+"
  "visit_each n m ds st = Some (Inl e) \<Longrightarrow>
     \<forall>g\<in>visiting st. \<forall>d\<in>set ds. (g, d) \<in> (edges m)\<^sup>+ \<Longrightarrow>
     \<exists>j. e = CircularDependency j \<and> (j, j) \<in> (edges m)\<^sup>+"
proof (induction n m i st and n m ds st rule: visit_visit_each.induct)
  case (1 m i st)
  then show ?case by simp
next
  case (2 n m i st)
  show ?case
  proof (cases "i \<in> visited st")
    case True
    with "2.prems" show ?thesis by simp
  next
    case nv: False
    show ?thesis
    proof (cases "i \<in> visiting st")
      case True
      with "2.prems" nv show ?thesis by auto
    next
      case False
      let ?ds = "case m i of None \<Rightarrow> [] | Some f \<Rightarrow> depends_on f"
      let ?st1 = "st\<lparr>visiting := insert i (visiting st)\<rparr>"
      from "2.prems"(1) nv False have e: "visit_each n m ?ds ?st1 = Some (Inl e)"
        by (auto split: option.splits sum.splits)
      have "\<forall>g\<in>visiting ?st1. \<forall>d\<in>set ?ds. (g, d) \<in> (edges m)\<^sup>+"
      proof (intro ballI)
        fix g d assume g: "g \<in> visiting ?st1" and d: "d \<in> set ?ds"
        have id: "(i, d) \<in> edges m" using d by (simp add: edges_def dep_ids_def)
        show "(g, d) \<in> (edges m)\<^sup>+"
        proof (cases "g = i")
          case True
          with id show ?thesis by auto
        next
          case False
          with g "2.prems"(2) have "(g, i) \<in> (edges m)\<^sup>+" by simp
          then show ?thesis using id by (rule trancl.trancl_into_trancl)
        qed
      qed
      from "2.IH" [OF nv False e this] show ?thesis .
    qed
  qed
next
  case (3 n m st)
  then show ?case by simp
next
  case (4 n m d ds st)
  show ?case
  proof (cases "visit n m d st")
    case None
    with "4.prems" show ?thesis by simp
  next
    case (Some x)
    show ?thesis
    proof (cases x)
      case (Inl e')
      with Some "4.prems"(1) have "visit n m d st = Some (Inl e)" by simp
      from "4.IH"(1) [OF this] "4.prems"(2) show ?thesis by simp
    next
      case (Inr st1)
      with Some "4.prems"(1) have e: "visit_each n m ds st1 = Some (Inl e)" by simp
      have "visiting st1 = visiting st" using Some Inr by (simp add: visiting_restored(1))
      with "4.prems"(2) have "\<forall>g\<in>visiting st1. \<forall>d\<in>set ds. (g, d) \<in> (edges m)\<^sup>+" by simp
      from "4.IH"(2) [OF Some Inr e this] show ?thesis .
    qed
  qed
qed

lemma topological_snoc:
  assumes "topological m fs"
    and "\<forall>d\<in>set (depends_on f). m d \<noteq> None \<longrightarrow> d \<in> fid ` set fs"
  shows "topological m (fs @ [f])"
  unfolding topological_def
proof (intro allI impI)
  fix pre g post assume e: "fs @ [f] = pre @ g # post"
  show "\<forall>d\<in>set (depends_on g). m d \<noteq> None \<longrightarrow> d \<in> fid ` set pre"
  proof (cases post rule: rev_cases)
    case Nil
    with e have "pre = fs" "g = f" by simp_all
    with assms(2) show ?thesis by simp
  next
    case (snoc post' x)
    with e have "fs @ [f] = (pre @ g # post') @ [x]" by simp
    then have "fs = pre @ g # post'" by (simp only: append1_eq_conv)
    with assms(1) show ?thesis unfolding topological_def by blast
  qed
qed

lemma dfs_inv_start:
  assumes "dfs_inv m st" and "i \<notin> visited st"
  shows "dfs_inv m (st\<lparr>visiting := insert i (visiting st)\<rparr>)"
  using assms by (simp add: dfs_inv_def)

lemma dfs_inv_finish:
  assumes wfm: "\<forall>i f. m i = Some f \<longrightarrow> fid f = i"
    and inv: "dfs_inv m st2"
    and vis: "i \<in> visiting st2"
    and deps: "set (dep_ids m i) \<subseteq> visited st2"
  shows "dfs_inv m (st2\<lparr>visiting := visiting st2 - {i},
                        visited := insert i (visited st2),
                        sorted := (case m i of None \<Rightarrow> sorted st2
                                   | Some f \<Rightarrow> sorted st2 @ [f])\<rparr>)"
proof -
  from inv have dis: "visited st2 \<inter> visiting st2 = {}"
    and dst: "distinct (map fid (sorted st2))"
    and ids: "fid ` set (sorted st2) = {i \<in> visited st2. m i \<noteq> None}"
    and rows: "\<forall>f\<in>set (sorted st2). m (fid f) = Some f"
    and clo: "\<forall>i\<in>visited st2. set (dep_ids m i) \<subseteq> visited st2"
    and top: "topological m (sorted st2)"
    by (simp_all add: dfs_inv_def)
  have niv: "i \<notin> visited st2" using dis vis by blast
  then have nis: "i \<notin> fid ` set (sorted st2)" using ids by blast
  show ?thesis
  proof (cases "m i")
    case None
    have "fid ` set (sorted st2) = {j \<in> insert i (visited st2). m j \<noteq> None}"
      using ids None by auto
    moreover have "\<forall>j\<in>insert i (visited st2). set (dep_ids m j) \<subseteq> insert i (visited st2)"
      using clo deps by blast
    moreover have "insert i (visited st2) \<inter> (visiting st2 - {i}) = {}" using dis by blast
    ultimately show ?thesis
      using None dst rows top by (simp add: dfs_inv_def)
  next
    case (Some f)
    have ff: "fid f = i" using wfm Some by simp
    have "fid ` set (sorted st2 @ [f]) = {j \<in> insert i (visited st2). m j \<noteq> None}"
      using ids Some ff by auto
    moreover have "\<forall>j\<in>insert i (visited st2). set (dep_ids m j) \<subseteq> insert i (visited st2)"
      using clo deps by blast
    moreover have "insert i (visited st2) \<inter> (visiting st2 - {i}) = {}" using dis by blast
    moreover have "distinct (map fid (sorted st2 @ [f]))" using dst nis ff by simp
    moreover have "\<forall>g\<in>set (sorted st2 @ [f]). m (fid g) = Some g"
      using rows Some ff by simp
    moreover have "topological m (sorted st2 @ [f])"
    proof (rule topological_snoc [OF top], intro ballI impI)
      fix d assume "d \<in> set (depends_on f)" "m d \<noteq> None"
      then have "d \<in> visited st2" "m d \<noteq> None"
        using deps Some by (auto simp: dep_ids_def)
      then show "d \<in> fid ` set (sorted st2)" using ids by blast
    qed
    ultimately show ?thesis
      using Some by (simp add: dfs_inv_def)
  qed
qed

text \<open>A successful visit keeps the invariant and leaves the ids it was asked for visited.\<close>

lemma visit_inv:
  "visit n m i st = Some (Inr st') \<Longrightarrow> \<forall>i f. m i = Some f \<longrightarrow> fid f = i \<Longrightarrow> dfs_inv m st \<Longrightarrow>
     dfs_inv m st' \<and> visited st \<subseteq> visited st' \<and> i \<in> visited st'"
  "visit_each n m ds st = Some (Inr st') \<Longrightarrow> \<forall>i f. m i = Some f \<longrightarrow> fid f = i \<Longrightarrow> dfs_inv m st \<Longrightarrow>
     dfs_inv m st' \<and> visited st \<subseteq> visited st' \<and> set ds \<subseteq> visited st'"
proof (induction n m i st and n m ds st arbitrary: st' and st' rule: visit_visit_each.induct)
  case (1 m i st)
  then show ?case by simp
next
  case (2 n m i st)
  show ?case
  proof (cases "i \<in> visited st")
    case True
    with "2.prems" show ?thesis by simp
  next
    case nv: False
    show ?thesis
    proof (cases "i \<in> visiting st")
      case True
      with "2.prems"(1) nv show ?thesis by simp
    next
      case False
      let ?ds = "case m i of None \<Rightarrow> [] | Some f \<Rightarrow> depends_on f"
      let ?st1 = "st\<lparr>visiting := insert i (visiting st)\<rparr>"
      from "2.prems"(1) nv False obtain st2 where
        e: "visit_each n m ?ds ?st1 = Some (Inr st2)"
        and s: "st' = st2\<lparr>visiting := visiting st2 - {i},
                          visited := insert i (visited st2),
                          sorted := (case m i of None \<Rightarrow> sorted st2
                                     | Some f \<Rightarrow> sorted st2 @ [f])\<rparr>"
        by (auto split: option.splits sum.splits)
      have i1: "dfs_inv m ?st1" using "2.prems"(3) nv by (rule dfs_inv_start)
      from "2.IH" [OF nv False e "2.prems"(2) i1]
      have i2: "dfs_inv m st2" and sub: "visited ?st1 \<subseteq> visited st2"
        and ds: "set ?ds \<subseteq> visited st2" by simp_all
      have "visiting st2 = visiting ?st1" using e by (rule visiting_restored(2))
      then have vis: "i \<in> visiting st2" by simp
      have deps: "set (dep_ids m i) \<subseteq> visited st2" using ds by (simp add: dep_ids_def)
      have "dfs_inv m st'" unfolding s using "2.prems"(2) i2 vis deps by (rule dfs_inv_finish)
      moreover have "visited st \<subseteq> visited st'" "i \<in> visited st'"
        using sub unfolding s by auto
      ultimately show ?thesis by simp
    qed
  qed
next
  case (3 n m st)
  then show ?case by simp
next
  case (4 n m d ds st)
  from "4.prems"(1) obtain st1 where v: "visit n m d st = Some (Inr st1)"
    and e: "visit_each n m ds st1 = Some (Inr st')"
    by (auto split: option.splits sum.splits)
  from "4.IH"(1) [OF v "4.prems"(2,3)]
  have i1: "dfs_inv m st1" and s1: "visited st \<subseteq> visited st1" and d: "d \<in> visited st1"
    by simp_all
  from "4.IH"(2) [OF v refl e "4.prems"(2) i1]
  have "dfs_inv m st'" "visited st1 \<subseteq> visited st'" "set ds \<subseteq> visited st'" by simp_all
  with s1 d show ?case by auto
qed

lemma list_features_set [simp]: "set (list_features s) = set s"
  by (simp add: list_features_def)

lemma list_features_distinct: "distinct (map fid s) \<Longrightarrow> distinct (map fid (list_features s))"
  by (simp add: list_features_def distinct_map)

lemma dep_ids_mem: "d \<in> set (dep_ids m i) \<longleftrightarrow> (\<exists>f. m i = Some f \<and> d \<in> set (depends_on f))"
  by (cases "m i") (simp_all add: dep_ids_def)

lemma edges_iff: "(a, b) \<in> edges m \<longleftrightarrow> (\<exists>f. m a = Some f \<and> b \<in> set (depends_on f))"
  by (simp add: edges_def dep_ids_mem)

lemma map_of_list_features:
  assumes "distinct (map fid s)"
  shows "map_of (map (\<lambda>f. (fid f, f)) (list_features s)) = getFeature s"
proof
  fix i
  let ?ps = "map (\<lambda>f. (fid f, f)) (list_features s)"
  have d: "distinct (map fst ?ps)"
    using list_features_distinct [OF assms] by (simp add: comp_def)
  show "map_of ?ps i = getFeature s i"
  proof (cases "getFeature s i")
    case None
    then have "i \<notin> fid ` set s" by (simp add: getFeature_None_iff)
    then have "i \<notin> fst ` set ?ps" by (auto simp: image_iff)
    then have "map_of ?ps i = None" by (simp add: map_of_eq_None_iff)
    with None show ?thesis by simp
  next
    case (Some f)
    then have "f \<in> set s" "fid f = i" by (auto dest: getFeature_Some_mem)
    then have "(i, f) \<in> set ?ps" by (auto simp: image_iff)
    with d have "map_of ?ps i = Some f" by (rule map_of_is_SomeI)
    with Some show ?thesis by simp
  qed
qed

lemma stops_before_end:
  "h \<in> set pre \<Longrightarrow> length (takeWhile (\<lambda>f. fid f \<noteq> fid h) pre) < length pre"
  by (induction pre) auto

text \<open>In a topological order that holds every row, an edge leads to an earlier place.\<close>

lemma topological_edge_back:
  assumes top: "topological m out" and dst: "distinct (map fid out)"
    and all: "\<forall>i. m i \<noteq> None \<longrightarrow> i \<in> fid ` set out"
    and rows: "\<forall>f\<in>set out. m (fid f) = Some f"
    and e: "(a, b) \<in> edges m" and b: "m b \<noteq> None"
  shows "length (takeWhile (\<lambda>f. fid f \<noteq> b) out) < length (takeWhile (\<lambda>f. fid f \<noteq> a) out)"
proof -
  from e obtain f where f: "m a = Some f" "b \<in> set (depends_on f)"
    unfolding edges_iff by blast
  from all f(1) obtain g where g: "g \<in> set out" "fid g = a" by auto
  with rows f(1) have "g = f" by auto
  with g obtain pre post where out: "out = pre @ f # post" "fid f = a"
    by (auto dest: split_list)
  from top out(1) f(2) b have "b \<in> fid ` set pre" unfolding topological_def by blast
  then obtain h where h: "h \<in> set pre" "fid h = b" by auto
  have "fid f \<notin> fid ` set pre" using dst unfolding out(1) by simp
  then have "\<forall>x\<in>set pre. fid x \<noteq> a" unfolding out(2) [symmetric] by (metis imageI)
  then have "takeWhile (\<lambda>f. fid f \<noteq> a) out = pre"
    unfolding out(1) using out(2) by (simp add: takeWhile_append2)
  moreover have "takeWhile (\<lambda>f. fid f \<noteq> b) out = takeWhile (\<lambda>f. fid f \<noteq> b) pre"
    unfolding out(1) using h by (intro takeWhile_append1 [of h]) simp_all
  moreover have "length (takeWhile (\<lambda>f. fid f \<noteq> b) pre) < length pre"
    using stops_before_end [OF h(1)] h(2) by simp
  ultimately show ?thesis by simp
qed

lemma edge_source_exists: "(a, b) \<in> edges m \<Longrightarrow> m a \<noteq> None"
  unfolding edges_iff by auto

lemma topological_path_back:
  assumes top: "topological m out" and dst: "distinct (map fid out)"
    and all: "\<forall>i. m i \<noteq> None \<longrightarrow> i \<in> fid ` set out"
    and rows: "\<forall>f\<in>set out. m (fid f) = Some f"
    and p: "(a, b) \<in> (edges m)\<^sup>+" and b: "m b \<noteq> None"
  shows "length (takeWhile (\<lambda>f. fid f \<noteq> b) out) < length (takeWhile (\<lambda>f. fid f \<noteq> a) out)"
  using p b
proof (induction rule: trancl_induct)
  case (base y)
  then show ?case using topological_edge_back [OF top dst all rows] by blast
next
  case (step y z)
  have "m y \<noteq> None" using step.hyps(2) by (rule edge_source_exists)
  then have "length (takeWhile (\<lambda>f. fid f \<noteq> y) out) < length (takeWhile (\<lambda>f. fid f \<noteq> a) out)"
    by (rule step.IH)
  moreover have "length (takeWhile (\<lambda>f. fid f \<noteq> z) out) < length (takeWhile (\<lambda>f. fid f \<noteq> y) out)"
    using topological_edge_back [OF top dst all rows step.hyps(2) step.prems] .
  ultimately show ?case by simp
qed

lemma topological_acyclic:
  assumes top: "topological m out" and dst: "distinct (map fid out)"
    and all: "\<forall>i. m i \<noteq> None \<longrightarrow> i \<in> fid ` set out"
    and rows: "\<forall>f\<in>set out. m (fid f) = Some f"
  shows "(i, i) \<notin> (edges m)\<^sup>+"
proof
  assume c: "(i, i) \<in> (edges m)\<^sup>+"
  then obtain z where "(i, z) \<in> edges m" by (auto dest: tranclD)
  then have "m i \<noteq> None" by (rule edge_source_exists)
  with topological_path_back [OF top dst all rows c] show False by simp
qed

text \<open>
  C9. With the ids of the store pairwise different, \<open>resolveOrder\<close> always returns: either
  a list that holds every stored feature exactly once and in which every existing
  dependency of a feature stands before the feature, and then the dependency graph has no
  cycle; or the exception \<open>Circular dependency\<close> for an id that lies on a cycle (a
  self-loop is a cycle of length one).
\<close>

theorem resolveOrder_topological_or_cycle:
  assumes "distinct (map fid s)"
  shows "(\<exists>out. resolveOrder s = Some (Inr out) \<and> distinct out \<and> set out = set s \<and>
            topological (getFeature s) out \<and>
            (\<forall>i. (i, i) \<notin> (edges (getFeature s))\<^sup>+))
       \<or> (\<exists>i. resolveOrder s = Some (Inl (CircularDependency i)) \<and>
            (i, i) \<in> (edges (getFeature s))\<^sup>+)"
proof -
  let ?all = "list_features s"
  let ?m = "getFeature s"
  let ?U = "set (universe ?all)"
  let ?st0 = "\<lparr>visited = {}, visiting = {}, sorted = []\<rparr>"
  let ?run = "visit_each (Suc (length (universe ?all))) ?m (map fid ?all) ?st0"
  have ro: "resolveOrder s = map_option (map_sum id sorted) ?run"
    by (simp add: resolveOrder_def Let_def map_of_list_features [OF assms])
  have wfm: "\<forall>i f. ?m i = Some f \<longrightarrow> fid f = i" by (auto dest: getFeature_fid)
  have closed: "\<forall>i\<in>?U. set (dep_ids ?m i) \<subseteq> ?U"
  proof (intro ballI subsetI)
    fix i d assume "d \<in> set (dep_ids ?m i)"
    then obtain f where "?m i = Some f" "d \<in> set (depends_on f)"
      unfolding dep_ids_mem by blast
    then have "f \<in> set s" "d \<in> set (depends_on f)" by (auto dest: getFeature_Some_mem)
    then show "d \<in> ?U" by (auto simp: universe_def)
  qed
  have ids: "set (map fid ?all) \<subseteq> ?U" by (auto simp: universe_def)
  have "card ?U \<le> length (universe ?all)" by (rule card_length)
  then have fuel: "card (?U - visiting ?st0) < Suc (length (universe ?all))" by simp
  have "?run \<noteq> None"
    using visit_enough_fuel(2) [OF _ closed ids fuel] by simp
  then obtain r where r: "?run = Some r" by blast
  have inv0: "dfs_inv ?m ?st0" by (simp add: dfs_inv_def topological_def)
  show ?thesis
  proof (cases r)
    case (Inl e)
    with r have "?run = Some (Inl e)" by simp
    from visit_error_on_cycle(2) [OF this] obtain j where
      "e = CircularDependency j" "(j, j) \<in> (edges ?m)\<^sup>+" by auto
    with r Inl ro show ?thesis by simp
  next
    case (Inr st')
    with r have run: "?run = Some (Inr st')" by simp
    from visit_inv(2) [OF run wfm inv0]
    have inv: "dfs_inv ?m st'" and vis: "set (map fid ?all) \<subseteq> visited st'" by simp_all
    let ?out = "sorted st'"
    from inv have dst: "distinct (map fid ?out)"
      and oids: "fid ` set ?out = {i \<in> visited st'. ?m i \<noteq> None}"
      and rows: "\<forall>f\<in>set ?out. ?m (fid f) = Some f"
      and top: "topological ?m ?out"
      by (simp_all add: dfs_inv_def)
    have all: "\<forall>i. ?m i \<noteq> None \<longrightarrow> i \<in> fid ` set ?out"
    proof (intro allI impI)
      fix i assume "?m i \<noteq> None"
      moreover from this have "i \<in> fid ` set s" by (simp add: getFeature_None_iff)
      then have "i \<in> visited st'" using vis by auto
      ultimately show "i \<in> fid ` set ?out" using oids by simp
    qed
    have "set ?out = set s"
    proof (intro equalityI subsetI)
      fix f assume "f \<in> set ?out"
      with rows have "?m (fid f) = Some f" by simp
      then show "f \<in> set s" by (auto dest: getFeature_Some_mem)
    next
      fix f assume f: "f \<in> set s"
      then have g: "?m (fid f) = Some f" using assms by (simp add: getFeature_distinct)
      then have "?m (fid f) \<noteq> None" by simp
      with all have "fid f \<in> fid ` set ?out" by blast
      then obtain h where h: "h \<in> set ?out" "fid h = fid f" by (auto simp: image_iff)
      from rows h(1) have "?m (fid h) = Some h" by blast
      with g h(2) have "h = f" by (metis option.inject)
      with h(1) show "f \<in> set ?out" by (simp only:)
    qed
    moreover have "distinct ?out" using dst by (simp add: distinct_map)
    moreover have "\<forall>i. (i, i) \<notin> (edges ?m)\<^sup>+"
      using topological_acyclic [OF top dst all rows] by simp
    ultimately show ?thesis using ro run top by simp
  qed
qed

theorem resolveOrder_topological_or_cycle_witness:
  "resolveOrder [row ''FEAT-002'' ''pending'' [''FEAT-001''] False,
                 row ''FEAT-001'' ''pending'' [] False]
     = Some (Inr [row ''FEAT-001'' ''pending'' [] False,
                  row ''FEAT-002'' ''pending'' [''FEAT-001''] False])
   \<and> resolveOrder [row ''FEAT-001'' ''pending'' [''FEAT-001''] False]
       = Some (Inl (CircularDependency ''FEAT-001''))
   \<and> (''FEAT-001'', ''FEAT-001'')
       \<in> (edges (getFeature [row ''FEAT-001'' ''pending'' [''FEAT-001''] False]))\<^sup>+"
proof -
  have d: "distinct (map fid [row ''FEAT-001'' ''pending'' [''FEAT-001''] False])" by simp
  have r: "resolveOrder [row ''FEAT-001'' ''pending'' [''FEAT-001''] False]
             = Some (Inl (CircularDependency ''FEAT-001''))" by code_simp
  have "resolveOrder [row ''FEAT-002'' ''pending'' [''FEAT-001''] False,
                      row ''FEAT-001'' ''pending'' [] False]
          = Some (Inr [row ''FEAT-001'' ''pending'' [] False,
                       row ''FEAT-002'' ''pending'' [''FEAT-001''] False])" by code_simp
  with resolveOrder_topological_or_cycle [OF d] r show ?thesis by auto
qed

end
